theory Spec2Isabelle
  imports Main "HOL-Library.Word"
begin

section \<open>Machine types, undefined behaviour and raw arrays\<close>

text \<open>
  \<^verbatim>\<open>size_t\<close> is a 64-bit unsigned integer whose arithmetic wraps around; the code relies
  on that (\<^verbatim>\<open>tail_ -= 1\<close> on a zero index).  The element type \<^verbatim>\<open>int\<close> is a 32-bit value
  that is only stored and copied.  Every source of undefined behaviour that the code
  can run into is a value of \<open>error\<close>: dereferencing a null \<^verbatim>\<open>unique_ptr\<close>, indexing an
  array outside its allocation, and \<^verbatim>\<open>%\<close> by zero.
\<close>

type_synonym size_t = "64 word"
type_synonym cint = "32 word"

datatype error = NullDeref | OutOfBounds | DivByZero

definition bindE :: "error + 'a \<Rightarrow> ('a \<Rightarrow> error + 'b) \<Rightarrow> error + 'b" where
  "bindE m f = (case m of Inl e \<Rightarrow> Inl e | Inr x \<Rightarrow> f x)"

definition arr_read :: "'a list \<Rightarrow> size_t \<Rightarrow> error + 'a" where
  "arr_read xs i = (if unat i < length xs then Inr (xs ! unat i) else Inl OutOfBounds)"

definition arr_write :: "'a list \<Rightarrow> size_t \<Rightarrow> 'a \<Rightarrow> error + 'a list" where
  "arr_write xs i v = (if unat i < length xs then Inr (xs[unat i := v]) else Inl OutOfBounds)"

text \<open>\<^verbatim>\<open>namespace deque_settings\<close>: \<^verbatim>\<open>512 / sizeof(int)\<close> and \<^verbatim>\<open>1 << 4\<close>.\<close>

definition kBlockSize :: size_t where
  "kBlockSize = 512 div 4"

definition kBufferInitMaxSize :: size_t where
  "kBufferInitMaxSize = push_bit 4 1"

section \<open>Block\<close>

text \<open>
  \<^verbatim>\<open>template<size_t BlockSize> struct Block\<close>: the array \<^verbatim>\<open>data_[BlockSize]\<close> and the three
  indices.  The template parameter is the first argument of every operation.
\<close>

record Block =
  blk_data :: "cint list"
  blk_size :: size_t
  blk_head :: size_t
  blk_tail :: size_t

text \<open>\<^verbatim>\<open>std::make_unique<DataBlock>()\<close>: value-initialised, so the array is zeroed.\<close>

definition Block_new :: "size_t \<Rightarrow> Block" where
  "Block_new BlockSize =
     \<lparr>blk_data = replicate (unat BlockSize) 0, blk_size = 0, blk_head = 0, blk_tail = 0\<rparr>"

text \<open>
  \<^verbatim>\<open>Block(size_t size, int filler)\<close>.  The loop \<^verbatim>\<open>for (i = head_; i <= tail_; ++i)\<close> writes
  \<^verbatim>\<open>data_[i]\<close>; with \<^verbatim>\<open>size = 0\<close> the bound \<^verbatim>\<open>tail_ = size_ - 1\<close> wraps to the largest
  \<^verbatim>\<open>size_t\<close> and the loop leaves the array.  Cells the constructor does not write are
  indeterminate in C++ and are 0 here; no operation reads them before writing.
\<close>

function Block_fill :: "size_t \<Rightarrow> cint \<Rightarrow> size_t \<Rightarrow> size_t \<Rightarrow> cint list \<Rightarrow> error + cint list" where
  "Block_fill BlockSize filler bound i d =
     (if i \<le> bound then
        (if i < BlockSize \<and> unat i < length d
         then Block_fill BlockSize filler bound (i + 1) (d[unat i := filler])
         else Inl OutOfBounds)
      else Inr d)"
  by pat_completeness auto
termination
proof (relation "measure (\<lambda>(BlockSize, filler, bound, i, d). unat BlockSize - unat i)")
  show "wf (measure (\<lambda>(BlockSize, filler, bound, i, d). unat BlockSize - unat i))"
    by simp
next
  fix BlockSize :: size_t and filler :: cint and bound i :: size_t and d :: "cint list"
  assume "i \<le> bound" and b: "i < BlockSize \<and> unat i < length d"
  from b have lt: "unat i < unat BlockSize"
    by (simp add: word_less_nat_alt)
  have "unat BlockSize < 2 ^ 64"
    using unsigned_less [of BlockSize, where 'a = nat] by simp
  with lt have "unat i + 1 < 2 ^ 64" by simp
  then have "unat (i + 1) = unat i + 1"
    by (simp add: unat_word_ariths)
  with lt show "((BlockSize, filler, bound, i + 1, d[unat i := filler]), (BlockSize, filler, bound, i, d))
      \<in> measure (\<lambda>(BlockSize, filler, bound, i, d). unat BlockSize - unat i)"
    by simp
qed

definition Block_sized :: "size_t \<Rightarrow> size_t \<Rightarrow> cint \<Rightarrow> error + Block" where
  "Block_sized BlockSize sz filler =
     bindE (Block_fill BlockSize filler (sz - 1) 0 (replicate (unat BlockSize) 0))
       (\<lambda>d. Inr \<lparr>blk_data = d, blk_size = sz, blk_head = 0, blk_tail = sz - 1\<rparr>)"

definition Block_PushFront :: "size_t \<Rightarrow> cint \<Rightarrow> Block \<Rightarrow> error + Block" where
  "Block_PushFront BlockSize val b =
     (if blk_head b = blk_tail b \<and> blk_head b = 0 then
        bindE (arr_write (blk_data b) (BlockSize - 1) val)
          (\<lambda>d. Inr (b\<lparr>blk_data := d, blk_head := BlockSize - 1, blk_tail := BlockSize - 1,
                       blk_size := blk_size b + 1\<rparr>))
      else
        bindE (arr_write (blk_data b) (blk_head b - 1) val)
          (\<lambda>d. Inr (b\<lparr>blk_data := d, blk_head := blk_head b - 1,
                       blk_size := blk_size b + 1\<rparr>)))"

definition Block_PushBack :: "size_t \<Rightarrow> cint \<Rightarrow> Block \<Rightarrow> error + Block" where
  "Block_PushBack BlockSize val b =
     (if blk_head b = blk_tail b \<and> blk_tail b = 0 \<and> blk_size b = 0 then
        bindE (arr_write (blk_data b) (blk_tail b) val)
          (\<lambda>d. Inr (b\<lparr>blk_data := d, blk_size := blk_size b + 1\<rparr>))
      else
        bindE (arr_write (blk_data b) (blk_tail b + 1) val)
          (\<lambda>d. Inr (b\<lparr>blk_data := d, blk_tail := blk_tail b + 1,
                       blk_size := blk_size b + 1\<rparr>)))"

definition Block_PopFront :: "Block \<Rightarrow> error + Block" where
  "Block_PopFront b =
     bindE (arr_write (blk_data b) (blk_head b) 0)
       (\<lambda>d. Inr (b\<lparr>blk_data := d, blk_head := blk_head b + 1, blk_size := blk_size b - 1\<rparr>))"

definition Block_PopBack :: "Block \<Rightarrow> error + Block" where
  "Block_PopBack b =
     bindE (arr_write (blk_data b) (blk_tail b) 0)
       (\<lambda>d. Inr (b\<lparr>blk_data := d, blk_tail := blk_tail b - 1, blk_size := blk_size b - 1\<rparr>))"

definition Block_Get :: "Block \<Rightarrow> size_t \<Rightarrow> error + cint" where
  "Block_Get b index = arr_read (blk_data b) (blk_head b + index)"

definition Block_Set :: "Block \<Rightarrow> size_t \<Rightarrow> cint \<Rightarrow> error + Block" where
  "Block_Set b index val =
     bindE (arr_write (blk_data b) (blk_head b + index) val) (\<lambda>d. Inr (b\<lparr>blk_data := d\<rparr>))"

definition Block_IsEmpty :: "Block \<Rightarrow> bool" where
  "Block_IsEmpty b = (blk_size b = 0)"

definition Block_IsFull :: "size_t \<Rightarrow> Block \<Rightarrow> bool" where
  "Block_IsFull BlockSize b = (blk_size b = BlockSize)"

definition Block_IsHeadShifted :: "Block \<Rightarrow> bool" where
  "Block_IsHeadShifted b = (blk_head b \<noteq> 0)"

definition Block_IsRightClose :: "size_t \<Rightarrow> Block \<Rightarrow> bool" where
  "Block_IsRightClose BlockSize b = (blk_head b + blk_size b \<ge> BlockSize)"

section \<open>CircularBuffer\<close>

text \<open>
  \<^verbatim>\<open>template<size_t BlockSize> class CircularBuffer\<close>.  The member \<^verbatim>\<open>buffer_\<close> is a
  \<^verbatim>\<open>unique_ptr\<close> to an array of \<^verbatim>\<open>unique_ptr<DataBlock>\<close>: the outer option is the array
  pointer itself (null after a move), the list is the allocation with its real length,
  and each cell is a null or owning block pointer.  Blocks are owned uniquely, so a
  block is stored by value in its slot.
\<close>

record CircularBuffer =
  cb_size :: size_t
  cb_max_size :: size_t
  cb_head :: size_t
  cb_tail :: size_t
  cb_buffer :: "Block option list option"

text \<open>\<^verbatim>\<open>buffer_[i]\<close>, \<^verbatim>\<open>*buffer_[i]\<close> (or \<^verbatim>\<open>buffer_[i]->\<close>) and \<^verbatim>\<open>buffer_[i] = p\<close>.\<close>

definition slot_ptr :: "CircularBuffer \<Rightarrow> size_t \<Rightarrow> error + Block option" where
  "slot_ptr r i = (case cb_buffer r of None \<Rightarrow> Inl NullDeref | Some buf \<Rightarrow> arr_read buf i)"

definition slot_deref :: "CircularBuffer \<Rightarrow> size_t \<Rightarrow> error + Block" where
  "slot_deref r i =
     bindE (slot_ptr r i) (\<lambda>p. case p of None \<Rightarrow> Inl NullDeref | Some b \<Rightarrow> Inr b)"

definition slot_assign :: "CircularBuffer \<Rightarrow> size_t \<Rightarrow> Block option \<Rightarrow> error + CircularBuffer" where
  "slot_assign r i p =
     (case cb_buffer r of
        None \<Rightarrow> Inl NullDeref
      | Some buf \<Rightarrow> bindE (arr_write buf i p) (\<lambda>buf'. Inr (r\<lparr>cb_buffer := Some buf'\<rparr>)))"

definition GetBlocksCount :: "size_t \<Rightarrow> size_t" where
  "GetBlocksCount elem_count =
     (if elem_count = 0 then 1 else (elem_count - 1) div kBlockSize + 1)"

text \<open>\<^verbatim>\<open>CircularBuffer()\<close>, with the default member initialisers.\<close>

definition CircularBuffer_default :: "size_t \<Rightarrow> CircularBuffer" where
  "CircularBuffer_default BlockSize =
     \<lparr>cb_size = 1, cb_max_size = kBufferInitMaxSize, cb_head = 0, cb_tail = 0,
      cb_buffer = Some ((replicate (unat kBufferInitMaxSize) None)[0 := Some (Block_new BlockSize)])\<rparr>"

text \<open>\<^verbatim>\<open>CircularBuffer(size_t elem_count)\<close>: only slot 0 receives a block.\<close>

definition CircularBuffer_reserved :: "size_t \<Rightarrow> size_t \<Rightarrow> CircularBuffer" where
  "CircularBuffer_reserved BlockSize elem_count =
     (let sz = GetBlocksCount elem_count; mx = max sz kBufferInitMaxSize
      in \<lparr>cb_size = sz, cb_max_size = mx, cb_head = 0, cb_tail = 0,
          cb_buffer = Some ((replicate (unat mx) None)[0 := Some (Block_new BlockSize)])\<rparr>)"

text \<open>\<^verbatim>\<open>CircularBuffer(size_t elem_count, int filler)\<close> and its loop over the slots.\<close>

function fill_blocks ::
  "size_t \<Rightarrow> size_t \<Rightarrow> size_t \<Rightarrow> cint \<Rightarrow> size_t \<Rightarrow> Block option list \<Rightarrow> error + Block option list" where
  "fill_blocks BlockSize sz elem_count filler i buf =
     (if i < sz then
        (case (if i = sz - 1
               then (if BlockSize = 0 then Inl DivByZero
                     else Block_sized BlockSize (elem_count mod BlockSize) filler)
               else Block_sized BlockSize BlockSize filler) of
           Inl e \<Rightarrow> Inl e
         | Inr b \<Rightarrow>
             (case arr_write buf i (Some b) of
                Inl e \<Rightarrow> Inl e
              | Inr buf' \<Rightarrow> fill_blocks BlockSize sz elem_count filler (i + 1) buf'))
      else Inr buf)"
  by pat_completeness auto
termination
proof (relation "measure (\<lambda>(BlockSize, sz, elem_count, filler, i, buf). unat sz - unat i)")
  show "wf (measure (\<lambda>(BlockSize, sz, elem_count, filler, i, buf). unat sz - unat i))"
    by simp
next
  fix BlockSize sz elem_count :: size_t and filler :: cint and i :: size_t
    and buf buf' :: "Block option list" and b :: Block
  assume "i < sz"
  then have lt: "unat i < unat sz"
    by (simp add: word_less_nat_alt)
  have "unat sz < 2 ^ 64"
    using unsigned_less [of sz, where 'a = nat] by simp
  with lt have "unat i + 1 < 2 ^ 64" by simp
  then have "unat (i + 1) = unat i + 1"
    by (simp add: unat_word_ariths)
  with lt show "((BlockSize, sz, elem_count, filler, i + 1, buf'), (BlockSize, sz, elem_count, filler, i, buf))
      \<in> measure (\<lambda>(BlockSize, sz, elem_count, filler, i, buf). unat sz - unat i)"
    by simp
qed

definition CircularBuffer_filled :: "size_t \<Rightarrow> size_t \<Rightarrow> cint \<Rightarrow> error + CircularBuffer" where
  "CircularBuffer_filled BlockSize elem_count filler =
     (let sz = GetBlocksCount elem_count; mx = max sz kBufferInitMaxSize
      in bindE (fill_blocks BlockSize sz elem_count filler 0 (replicate (unat mx) None))
           (\<lambda>buf. Inr \<lparr>cb_size = sz, cb_max_size = mx, cb_head = 0, cb_tail = 0,
                        cb_buffer = Some buf\<rparr>))"

text \<open>
  The state both the move constructor and the move assignment leave in \<^verbatim>\<open>other\<close>:
  \<^verbatim>\<open>other.buffer_.reset(); other.size_ = 1; other.max_size_ = 0; other.head_ = 0;
  other.tail_ = 0\<close>.
\<close>

definition CircularBuffer_moved_from :: CircularBuffer where
  "CircularBuffer_moved_from =
     \<lparr>cb_size = 1, cb_max_size = 0, cb_head = 0, cb_tail = 0, cb_buffer = None\<rparr>"

text \<open>
  \<^verbatim>\<open>CircularBuffer(CircularBuffer &&other)\<close> and \<^verbatim>\<open>operator=(CircularBuffer &&other)\<close> on
  two distinct objects: the pair is (the object built or assigned to, \<^verbatim>\<open>other\<close> afterwards).
\<close>

definition CircularBuffer_move :: "CircularBuffer \<Rightarrow> CircularBuffer \<times> CircularBuffer" where
  "CircularBuffer_move other =
     (\<lparr>cb_size = cb_size other, cb_max_size = cb_max_size other, cb_head = cb_head other,
       cb_tail = cb_tail other, cb_buffer = cb_buffer other\<rparr>,
      CircularBuffer_moved_from)"

text \<open>\<^verbatim>\<open>Block::operator=(const Block &other)\<close>, on two distinct blocks.\<close>

definition Block_copy_assign :: "Block \<Rightarrow> Block \<Rightarrow> Block" where
  "Block_copy_assign this other =
     this\<lparr>blk_size := blk_size other, blk_head := blk_head other, blk_tail := blk_tail other,
          blk_data := blk_data other\<rparr>"

text \<open>
  \<^verbatim>\<open>CircularBuffer(const CircularBuffer &other)\<close>: the loop runs over the slot indices
  \<^verbatim>\<open>0 .. other.size_ - 1\<close>, creates a block there and assigns \<^verbatim>\<open>*other.buffer_[i]\<close> to it.
\<close>

function copy_blocks ::
  "size_t \<Rightarrow> CircularBuffer \<Rightarrow> size_t \<Rightarrow> Block option list \<Rightarrow> error + Block option list" where
  "copy_blocks BlockSize other i buf =
     (if i < cb_size other then
        (case arr_write buf i (Some (Block_new BlockSize)) of
           Inl e \<Rightarrow> Inl e
         | Inr buf1 \<Rightarrow>
             (case slot_deref other i of
                Inl e \<Rightarrow> Inl e
              | Inr ob \<Rightarrow>
                  copy_blocks BlockSize other (i + 1)
                    (buf1[unat i := Some (Block_copy_assign (Block_new BlockSize) ob)])))
      else Inr buf)"
  by pat_completeness auto
termination
proof (relation "measure (\<lambda>(BlockSize, other, i, buf). unat (cb_size other) - unat i)")
  show "wf (measure (\<lambda>(BlockSize, other, i, buf). unat (cb_size other) - unat i))"
    by simp
next
  fix BlockSize :: size_t and other :: CircularBuffer and i :: size_t
    and buf buf1 :: "Block option list" and ob :: Block
  assume "i < cb_size other"
  then have lt: "unat i < unat (cb_size other)"
    by (simp add: word_less_nat_alt)
  have "unat (cb_size other) < 2 ^ 64"
    using unsigned_less [of "cb_size other", where 'a = nat] by simp
  with lt have "unat i + 1 < 2 ^ 64" by simp
  then have "unat (i + 1) = unat i + 1"
    by (simp add: unat_word_ariths)
  with lt show "((BlockSize, other, i + 1, buf1[unat i := Some (Block_copy_assign (Block_new BlockSize) ob)]),
       (BlockSize, other, i, buf))
      \<in> measure (\<lambda>(BlockSize, other, i, buf). unat (cb_size other) - unat i)"
    by simp
qed

definition CircularBuffer_copy :: "size_t \<Rightarrow> CircularBuffer \<Rightarrow> error + CircularBuffer" where
  "CircularBuffer_copy BlockSize other =
     bindE (copy_blocks BlockSize other 0 (replicate (unat (cb_max_size other)) None))
       (\<lambda>buf. Inr \<lparr>cb_size = cb_size other, cb_max_size = cb_max_size other,
                    cb_head = cb_head other, cb_tail = cb_tail other, cb_buffer = Some buf\<rparr>)"

text \<open>\<^verbatim>\<open>Swap\<close>: the pair is (\<^verbatim>\<open>*this\<close>, \<^verbatim>\<open>other\<close>) afterwards.\<close>

definition CircularBuffer_Swap :: "CircularBuffer \<Rightarrow> CircularBuffer \<Rightarrow> CircularBuffer \<times> CircularBuffer" where
  "CircularBuffer_Swap this other =
     (this\<lparr>cb_buffer := cb_buffer other, cb_size := cb_size other, cb_max_size := cb_max_size other,
           cb_head := cb_head other, cb_tail := cb_tail other\<rparr>,
      other\<lparr>cb_buffer := cb_buffer this, cb_size := cb_size this, cb_max_size := cb_max_size this,
            cb_head := cb_head this, cb_tail := cb_tail this\<rparr>)"

definition AddTailDataBlock :: "size_t \<Rightarrow> CircularBuffer \<Rightarrow> error + CircularBuffer" where
  "AddTailDataBlock BlockSize r =
     (let t = (if cb_tail r = cb_max_size r - 1 then 0 else cb_tail r + 1)
      in bindE (slot_assign (r\<lparr>cb_tail := t\<rparr>) t (Some (Block_new BlockSize)))
           (\<lambda>r'. Inr (r'\<lparr>cb_size := cb_size r' + 1\<rparr>)))"

definition AddHeadDataBlock :: "size_t \<Rightarrow> CircularBuffer \<Rightarrow> error + CircularBuffer" where
  "AddHeadDataBlock BlockSize r =
     (let h = (if cb_head r = 0 then cb_max_size r - 1 else cb_head r - 1)
      in bindE (slot_assign (r\<lparr>cb_head := h\<rparr>) h (Some (Block_new BlockSize)))
           (\<lambda>r'. Inr (r'\<lparr>cb_size := cb_size r' + 1\<rparr>)))"

definition DeleteDataBlockFromTail :: "CircularBuffer \<Rightarrow> error + CircularBuffer" where
  "DeleteDataBlockFromTail r =
     bindE (slot_assign r (cb_tail r) None)
       (\<lambda>r'. if cb_tail r' = cb_head r'
             then Inr (r'\<lparr>cb_tail := 0, cb_head := 0, cb_size := 0\<rparr>)
             else Inr (r'\<lparr>cb_tail := (if cb_tail r' = 0 then cb_max_size r' - 1 else cb_tail r' - 1),
                          cb_size := cb_size r' - 1\<rparr>))"

definition DeleteDataBlockFromHead :: "CircularBuffer \<Rightarrow> error + CircularBuffer" where
  "DeleteDataBlockFromHead r =
     bindE (slot_assign r (cb_head r) None)
       (\<lambda>r'. if cb_head r' = cb_tail r'
             then Inr (r'\<lparr>cb_tail := 0, cb_head := 0, cb_size := 0\<rparr>)
             else Inr (r'\<lparr>cb_head := (if cb_head r' = cb_max_size r' - 1 then 0 else cb_head r' + 1),
                          cb_size := cb_size r' - 1\<rparr>))"

definition CircularBuffer_IsFull :: "CircularBuffer \<Rightarrow> bool" where
  "CircularBuffer_IsFull r = (cb_size r = cb_max_size r)"

text \<open>\<^verbatim>\<open>size_ == 1 and buffer_[0]->IsEmpty()\<close>: slot 0 is read only when \<^verbatim>\<open>size_\<close> is 1.\<close>

definition CircularBuffer_IsEmpty :: "CircularBuffer \<Rightarrow> error + bool" where
  "CircularBuffer_IsEmpty r =
     (if cb_size r = 1 then bindE (slot_deref r 0) (\<lambda>b. Inr (Block_IsEmpty b)) else Inr False)"

definition IsTailDataBlockFull :: "size_t \<Rightarrow> CircularBuffer \<Rightarrow> error + bool" where
  "IsTailDataBlockFull BlockSize r =
     bindE (slot_deref r (cb_tail r)) (\<lambda>b. Inr (Block_IsFull BlockSize b))"

definition IsHeadDataBlockFull :: "size_t \<Rightarrow> CircularBuffer \<Rightarrow> error + bool" where
  "IsHeadDataBlockFull BlockSize r =
     bindE (slot_deref r (cb_head r)) (\<lambda>b. Inr (Block_IsFull BlockSize b))"

definition TailIsUsedHead :: "size_t \<Rightarrow> CircularBuffer \<Rightarrow> error + bool" where
  "TailIsUsedHead BlockSize r =
     bindE (slot_deref r (cb_tail r)) (\<lambda>b. Inr (Block_IsRightClose BlockSize b))"

definition IsHeadStartNotShifted :: "CircularBuffer \<Rightarrow> error + bool" where
  "IsHeadStartNotShifted r =
     bindE (slot_deref r (cb_head r)) (\<lambda>b. Inr (\<not> Block_IsHeadShifted b))"

text \<open>
  \<^verbatim>\<open>GetTailDataBlock\<close> allocates a block when the tail slot is null; the pointer it
  returns is the block of slot \<^verbatim>\<open>tail_\<close> of the ring returned here.  \<^verbatim>\<open>GetHeadDataBlock\<close>
  returns \<^verbatim>\<open>buffer_[head_].get()\<close>, possibly null: the caller's use is \<open>slot_deref\<close>.
\<close>

definition GetTailDataBlock :: "size_t \<Rightarrow> CircularBuffer \<Rightarrow> error + CircularBuffer" where
  "GetTailDataBlock BlockSize r =
     bindE (slot_ptr r (cb_tail r))
       (\<lambda>p. case p of
              None \<Rightarrow> slot_assign r (cb_tail r) (Some (Block_new BlockSize))
            | Some b \<Rightarrow> Inr r)"

definition GetHeadDataBlock :: "CircularBuffer \<Rightarrow> error + Block option" where
  "GetHeadDataBlock r = slot_ptr r (cb_head r)"

text \<open>
  \<^verbatim>\<open>GetElementByIndex\<close>: the pair is the slot and the argument of \<^verbatim>\<open>Block::Get\<close> that the
  function ends with; the const overload reads there, the other returns the reference.
\<close>

definition locate_element :: "size_t \<Rightarrow> CircularBuffer \<Rightarrow> size_t \<Rightarrow> error + size_t \<times> size_t" where
  "locate_element BlockSize r index =
     bindE (slot_deref r (cb_head r))
       (\<lambda>hb. let head_size = blk_size hb in
             if index < head_size then Inr (cb_head r, index)
             else let index' = index - head_size in
               if BlockSize = 0 \<or> cb_max_size r = 0 then Inl DivByZero
               else Inr ((cb_head r + index' div BlockSize + 1) mod cb_max_size r,
                         index' mod BlockSize))"

definition GetElementByIndex :: "size_t \<Rightarrow> CircularBuffer \<Rightarrow> size_t \<Rightarrow> error + cint" where
  "GetElementByIndex BlockSize r index =
     bindE (locate_element BlockSize r index)
       (\<lambda>(slot, off). bindE (slot_deref r slot) (\<lambda>b. Block_Get b off))"

definition SetElementByIndex :: "size_t \<Rightarrow> CircularBuffer \<Rightarrow> size_t \<Rightarrow> cint \<Rightarrow> error + CircularBuffer" where
  "SetElementByIndex BlockSize r index val =
     bindE (locate_element BlockSize r index)
       (\<lambda>(slot, off). bindE (slot_deref r slot)
          (\<lambda>b. bindE (Block_Set b off val) (\<lambda>b'. slot_assign r slot (Some b'))))"

text \<open>
  \<^verbatim>\<open>ExpandBuffer\<close>.  The loop moves the slot pointers \<^verbatim>\<open>head_ .. tail_ - 1\<close> (wrapping) to
  \<^verbatim>\<open>new_buffer[0 ..]\<close>; moving a null pointer is not an error.
\<close>

function Expand_loop ::
  "Block option list \<Rightarrow> size_t \<Rightarrow> size_t \<Rightarrow> size_t \<Rightarrow> size_t \<Rightarrow> size_t \<Rightarrow> Block option list
     \<Rightarrow> error + size_t \<times> Block option list" where
  "Expand_loop old max_size new_size tail i cnt new_buffer =
     (if i \<noteq> tail then
        (case arr_read old i of
           Inl e \<Rightarrow> Inl e
         | Inr p \<Rightarrow>
             (if cnt < new_size \<and> unat cnt < length new_buffer then
                (if max_size = 0 then Inl DivByZero
                 else Expand_loop old max_size new_size tail ((i + 1) mod max_size) (cnt + 1)
                        (new_buffer[unat cnt := p]))
              else Inl OutOfBounds))
      else Inr (cnt, new_buffer))"
  by pat_completeness auto
termination
proof (relation "measure (\<lambda>(old, max_size, new_size, tail, i, cnt, new_buffer). unat new_size - unat cnt)")
  show "wf (measure (\<lambda>(old, max_size, new_size, tail, i, cnt, new_buffer). unat new_size - unat cnt))"
    by simp
next
  fix old new_buffer :: "Block option list" and max_size new_size tail i cnt :: size_t
    and p :: "Block option"
  assume "cnt < new_size \<and> unat cnt < length new_buffer"
  then have lt: "unat cnt < unat new_size"
    by (simp add: word_less_nat_alt)
  have "unat new_size < 2 ^ 64"
    using unsigned_less [of new_size, where 'a = nat] by simp
  with lt have "unat cnt + 1 < 2 ^ 64" by simp
  then have "unat (cnt + 1) = unat cnt + 1"
    by (simp add: unat_word_ariths)
  with lt show "((old, max_size, new_size, tail, (i + 1) mod max_size, cnt + 1, new_buffer[unat cnt := p]),
       (old, max_size, new_size, tail, i, cnt, new_buffer))
      \<in> measure (\<lambda>(old, max_size, new_size, tail, i, cnt, new_buffer). unat new_size - unat cnt)"
    by simp
qed

definition ExpandBuffer :: "CircularBuffer \<Rightarrow> error + CircularBuffer" where
  "ExpandBuffer r =
     (let new_size = cb_max_size r * 2 in
      case cb_buffer r of
        None \<Rightarrow> Inl NullDeref
      | Some old \<Rightarrow>
          bindE (Expand_loop old (cb_max_size r) new_size (cb_tail r) (cb_head r) 0
                   (replicate (unat new_size) None))
            (\<lambda>(cnt, nb).
               bindE (arr_read old (cb_tail r))
                 (\<lambda>p. bindE (arr_write nb cnt p)
                    (\<lambda>nb'. Inr (r\<lparr>cb_head := 0, cb_tail := cb_size r - 1,
                                   cb_buffer := Some nb', cb_max_size := new_size\<rparr>)))))"

text \<open>\<^verbatim>\<open>Clear\<close>: resets the slots \<^verbatim>\<open>0 .. size_ - 1\<close>, then installs a block in slot 0.\<close>

function Clear_loop :: "size_t \<Rightarrow> size_t \<Rightarrow> Block option list \<Rightarrow> error + Block option list" where
  "Clear_loop sz i buf =
     (if i < sz then
        (case arr_write buf i None of
           Inl e \<Rightarrow> Inl e
         | Inr buf' \<Rightarrow> Clear_loop sz (i + 1) buf')
      else Inr buf)"
  by pat_completeness auto
termination
proof (relation "measure (\<lambda>(sz, i, buf). unat sz - unat i)")
  show "wf (measure (\<lambda>(sz, i, buf). unat sz - unat i))"
    by simp
next
  fix sz i :: size_t and buf buf' :: "Block option list"
  assume "i < sz"
  then have lt: "unat i < unat sz"
    by (simp add: word_less_nat_alt)
  have "unat sz < 2 ^ 64"
    using unsigned_less [of sz, where 'a = nat] by simp
  with lt have "unat i + 1 < 2 ^ 64" by simp
  then have "unat (i + 1) = unat i + 1"
    by (simp add: unat_word_ariths)
  with lt show "((sz, i + 1, buf'), (sz, i, buf)) \<in> measure (\<lambda>(sz, i, buf). unat sz - unat i)"
    by simp
qed

definition CircularBuffer_Clear :: "size_t \<Rightarrow> CircularBuffer \<Rightarrow> error + CircularBuffer" where
  "CircularBuffer_Clear BlockSize r =
     (case cb_buffer r of
        None \<Rightarrow> Inl NullDeref
      | Some buf \<Rightarrow>
          bindE (Clear_loop (cb_size r) 0 buf)
            (\<lambda>buf1. bindE (arr_write buf1 0 (Some (Block_new BlockSize)))
               (\<lambda>buf2. Inr (r\<lparr>cb_buffer := Some buf2, cb_size := 0, cb_tail := 0, cb_head := 0,
                              cb_max_size := kBufferInitMaxSize\<rparr>))))"

section \<open>Deque\<close>

text \<open>\<^verbatim>\<open>class Deque\<close>: the ring instantiated at \<^verbatim>\<open>deque_settings::kBlockSize\<close> and the count.\<close>

record Deque =
  dq_data_proxy :: CircularBuffer
  dq_size :: size_t

definition Deque_default :: Deque where
  "Deque_default = \<lparr>dq_data_proxy = CircularBuffer_default kBlockSize, dq_size = 0\<rparr>"

definition Deque_sized :: "size_t \<Rightarrow> error + Deque" where
  "Deque_sized sz =
     bindE (CircularBuffer_filled kBlockSize sz 0)
       (\<lambda>r. Inr \<lparr>dq_data_proxy = r, dq_size = sz\<rparr>)"

definition Deque_PushBack :: "cint \<Rightarrow> Deque \<Rightarrow> error + Deque" where
  "Deque_PushBack val d =
     (let r = dq_data_proxy d in
      bindE (if CircularBuffer_IsFull r then IsTailDataBlockFull kBlockSize r else Inr False) (\<lambda>grow.
      bindE (if grow then ExpandBuffer r else Inr r) (\<lambda>r1.
      bindE (IsTailDataBlockFull kBlockSize r1) (\<lambda>full.
      bindE (if full then Inr True else TailIsUsedHead kBlockSize r1) (\<lambda>add.
      bindE (if add then AddTailDataBlock kBlockSize r1 else Inr r1) (\<lambda>r2.
      bindE (GetTailDataBlock kBlockSize r2) (\<lambda>r3.
      bindE (slot_deref r3 (cb_tail r3)) (\<lambda>tail_data_block.
      bindE (Block_PushBack kBlockSize val tail_data_block) (\<lambda>b'.
      bindE (slot_assign r3 (cb_tail r3) (Some b')) (\<lambda>r4.
      Inr \<lparr>dq_data_proxy = r4, dq_size = dq_size d + 1\<rparr>))))))))))"

definition Deque_PopBack :: "Deque \<Rightarrow> error + Deque" where
  "Deque_PopBack d =
     (let r = dq_data_proxy d in
      bindE (GetTailDataBlock kBlockSize r) (\<lambda>r1.
      bindE (slot_deref r1 (cb_tail r1)) (\<lambda>tail_data_block.
      bindE (Block_PopBack tail_data_block) (\<lambda>b'.
      bindE (slot_assign r1 (cb_tail r1) (Some b')) (\<lambda>r2.
      bindE (if Block_IsEmpty b' \<and> dq_size d > 1 then DeleteDataBlockFromTail r2 else Inr r2) (\<lambda>r3.
      Inr \<lparr>dq_data_proxy = r3, dq_size = dq_size d - 1\<rparr>))))))"

definition Deque_PushFront :: "cint \<Rightarrow> Deque \<Rightarrow> error + Deque" where
  "Deque_PushFront val d =
     (let r = dq_data_proxy d in
      bindE (if CircularBuffer_IsFull r then IsHeadDataBlockFull kBlockSize r else Inr False) (\<lambda>grow.
      bindE (if grow then ExpandBuffer r else Inr r) (\<lambda>r1.
      bindE (CircularBuffer_IsEmpty r1) (\<lambda>empty.
      bindE (if \<not> empty then IsHeadStartNotShifted r1 else Inr False) (\<lambda>add.
      bindE (if add then AddHeadDataBlock kBlockSize r1 else Inr r1) (\<lambda>r2.
      bindE (slot_deref r2 (cb_head r2)) (\<lambda>head_data_block.
      bindE (Block_PushFront kBlockSize val head_data_block) (\<lambda>b'.
      bindE (slot_assign r2 (cb_head r2) (Some b')) (\<lambda>r3.
      Inr \<lparr>dq_data_proxy = r3, dq_size = dq_size d + 1\<rparr>)))))))))"

definition Deque_PopFront :: "Deque \<Rightarrow> error + Deque" where
  "Deque_PopFront d =
     (let r = dq_data_proxy d in
      bindE (slot_deref r (cb_head r)) (\<lambda>head_data_block.
      bindE (Block_PopFront head_data_block) (\<lambda>b'.
      bindE (slot_assign r (cb_head r) (Some b')) (\<lambda>r1.
      bindE (if Block_IsEmpty b' \<and> dq_size d > 1 then DeleteDataBlockFromHead r1 else Inr r1) (\<lambda>r2.
      Inr \<lparr>dq_data_proxy = r2, dq_size = dq_size d - 1\<rparr>)))))"

text \<open>\<^verbatim>\<open>operator[]\<close>, the const overload and a write through the returned reference.\<close>

definition Deque_index :: "Deque \<Rightarrow> size_t \<Rightarrow> error + cint" where
  "Deque_index d ind = GetElementByIndex kBlockSize (dq_data_proxy d) ind"

definition Deque_index_assign :: "Deque \<Rightarrow> size_t \<Rightarrow> cint \<Rightarrow> error + Deque" where
  "Deque_index_assign d ind val =
     bindE (SetElementByIndex kBlockSize (dq_data_proxy d) ind val)
       (\<lambda>r. Inr (d\<lparr>dq_data_proxy := r\<rparr>))"

definition Deque_Size :: "Deque \<Rightarrow> size_t" where
  "Deque_Size d = dq_size d"

definition Deque_Clear :: "Deque \<Rightarrow> error + Deque" where
  "Deque_Clear d =
     bindE (CircularBuffer_Clear kBlockSize (dq_data_proxy d))
       (\<lambda>r. Inr \<lparr>dq_data_proxy = r, dq_size = 0\<rparr>)"

text \<open>\<^verbatim>\<open>Deque(std::initializer_list<int> list)\<close>: the loop of \<^verbatim>\<open>PushBack\<close> calls.\<close>

fun push_all :: "cint list \<Rightarrow> Deque \<Rightarrow> error + Deque" where
  "push_all [] d = Inr d"
| "push_all (el # els) d =
     (case Deque_PushBack el d of Inl e \<Rightarrow> Inl e | Inr d' \<Rightarrow> push_all els d')"

definition Deque_from_list :: "cint list \<Rightarrow> error + Deque" where
  "Deque_from_list list =
     push_all list
       \<lparr>dq_data_proxy = CircularBuffer_reserved kBlockSize (word_of_nat (length list)), dq_size = 0\<rparr>"

text \<open>\<^verbatim>\<open>Deque(const Deque &rhs) = default\<close>: member-wise copy.\<close>

definition Deque_copy :: "Deque \<Rightarrow> error + Deque" where
  "Deque_copy rhs =
     bindE (CircularBuffer_copy kBlockSize (dq_data_proxy rhs))
       (\<lambda>r. Inr \<lparr>dq_data_proxy = r, dq_size = dq_size rhs\<rparr>)"

text \<open>
  \<^verbatim>\<open>Deque(Deque &&rhs) = default\<close>: member-wise move; moving the \<^verbatim>\<open>size_t\<close> member copies
  it.  The pair is (the new deque, \<^verbatim>\<open>rhs\<close> afterwards).
\<close>

definition Deque_move :: "Deque \<Rightarrow> Deque \<times> Deque" where
  "Deque_move rhs =
     (let (r, r_src) = CircularBuffer_move (dq_data_proxy rhs)
      in (\<lparr>dq_data_proxy = r, dq_size = dq_size rhs\<rparr>,
          \<lparr>dq_data_proxy = r_src, dq_size = dq_size rhs\<rparr>))"

text \<open>
  \<^verbatim>\<open>operator=(Deque rhs)\<close> takes its argument by value.  \<^verbatim>\<open>a = std::move(b)\<close> builds the
  parameter with the move constructor, \<^verbatim>\<open>a = b\<close> with the copy constructor; the body
  then moves the parameter's members into \<^verbatim>\<open>*this\<close>.  The pair of the first is
  (\<^verbatim>\<open>a\<close>, \<^verbatim>\<open>b\<close>) afterwards.
\<close>

definition Deque_assign_body :: "Deque \<Rightarrow> Deque \<Rightarrow> Deque" where
  "Deque_assign_body this rhs =
     this\<lparr>dq_size := dq_size rhs, dq_data_proxy := fst (CircularBuffer_move (dq_data_proxy rhs))\<rparr>"

definition Deque_move_assign :: "Deque \<Rightarrow> Deque \<Rightarrow> Deque \<times> Deque" where
  "Deque_move_assign a b =
     (let (rhs, b') = Deque_move b in (Deque_assign_body a rhs, b'))"

definition Deque_copy_assign :: "Deque \<Rightarrow> Deque \<Rightarrow> error + Deque" where
  "Deque_copy_assign a b = bindE (Deque_copy b) (\<lambda>rhs. Inr (Deque_assign_body a rhs))"

definition Deque_Swap :: "Deque \<Rightarrow> Deque \<Rightarrow> Deque \<times> Deque" where
  "Deque_Swap this rhs =
     (let (r, r') = CircularBuffer_Swap (dq_data_proxy this) (dq_data_proxy rhs)
      in (\<lparr>dq_data_proxy = r, dq_size = dq_size rhs\<rparr>,
          \<lparr>dq_data_proxy = r', dq_size = dq_size this\<rparr>))"

section \<open>Sequences of end operations and the reference list\<close>

datatype op = PushBack cint | PushFront cint | PopBack | PopFront

fun Deque_apply :: "op \<Rightarrow> Deque \<Rightarrow> error + Deque" where
  "Deque_apply (PushBack v) d = Deque_PushBack v d"
| "Deque_apply (PushFront v) d = Deque_PushFront v d"
| "Deque_apply PopBack d = Deque_PopBack d"
| "Deque_apply PopFront d = Deque_PopFront d"

fun Deque_run :: "op list \<Rightarrow> Deque \<Rightarrow> error + Deque" where
  "Deque_run [] d = Inr d"
| "Deque_run (x # xs) d =
     (case Deque_apply x d of Inl e \<Rightarrow> Inl e | Inr d' \<Rightarrow> Deque_run xs d')"

text \<open>
  The reference two-ended list.  A pop of the empty list is the caller's contract
  violation, so the reference has no value there: \<open>ref_run ops [] = Some xs\<close> says that
  \<open>ops\<close> never pops more than was pushed and that \<open>xs\<close> is what the list then holds.
\<close>

fun ref_apply :: "op \<Rightarrow> cint list \<Rightarrow> cint list option" where
  "ref_apply (PushBack v) xs = Some (xs @ [v])"
| "ref_apply (PushFront v) xs = Some (v # xs)"
| "ref_apply PopBack xs = (if xs = [] then None else Some (butlast xs))"
| "ref_apply PopFront xs = (if xs = [] then None else Some (tl xs))"

fun ref_run :: "op list \<Rightarrow> cint list \<Rightarrow> cint list option" where
  "ref_run [] xs = Some xs"
| "ref_run (x # ops) xs =
     (case ref_apply x xs of None \<Rightarrow> None | Some xs' \<Rightarrow> ref_run ops xs')"

text \<open>Reading every index \<open>0 .. Size() - 1\<close> in turn.\<close>

definition Deque_read_all :: "Deque \<Rightarrow> (error + cint) list" where
  "Deque_read_all d = map (\<lambda>i. Deque_index d (word_of_nat i)) [0 ..< unat (Deque_Size d)]"

section \<open>Abstraction and invariants\<close>

text \<open>
  The elements a block holds are its window \<open>head .. head + size - 1\<close> of the array.  A
  block is well formed when the window lies inside the array and \<open>tail\<close> is the last
  index of the window, computed in \<^verbatim>\<open>size_t\<close>: for an emptied block that is \<open>head - 1\<close>,
  wrapped when \<open>head\<close> is 0.  The only other state is the value-initialised block.

  A ring represents a list of blocks \<open>bs\<close> when its slot array, read from \<open>head\<close> on and
  wrapping, holds exactly the blocks of \<open>bs\<close> followed by null slots, and the size field
  is the length of \<open>bs\<close>.  The list of blocks of a deque is well formed when every block
  but the last reaches the right edge of its array and every block but the first starts
  at offset 0; the blocks strictly between are therefore full.  The number \<open>n\<close> of
  \<open>deque_inv\<close> bounds the operations performed so far; it keeps every \<^verbatim>\<open>size_t\<close> counter
  away from its wrap-around.

  \<open>populated_slots\<close> lists the indices of the non-null slots of the ring's array and
  \<open>ring_range\<close> the indices from \<open>head\<close> to \<open>tail\<close> that the size field announces; a ring
  is consistent when the two agree and the range ends at \<open>tail\<close>.  \<open>ring_slot r j\<close> is the
  array index of the \<open>j\<close>-th block counted from \<open>head\<close>, and \<open>middle_blocks_full\<close> reads
  every block strictly between the head block and the tail block through the code's own
  slot access.

  \<open>reserved_inv j s\<close> describes the deque that the initializer-list constructor of a
  1025-element list is filling: the size field starts at the block count 9 although one
  slot is populated, so it stays 8 ahead of the tail index \<open>j\<close>; \<open>s\<close> is the fill of the
  tail block.
\<close>

definition blk_elems :: "Block \<Rightarrow> cint list" where
  "blk_elems b = take (unat (blk_size b)) (drop (unat (blk_head b)) (blk_data b))"

definition blk_fresh :: "Block \<Rightarrow> bool" where
  "blk_fresh b \<longleftrightarrow> blk_size b = 0 \<and> blk_head b = 0 \<and> blk_tail b = 0"

definition blk_ok :: "Block \<Rightarrow> bool" where
  "blk_ok b \<longleftrightarrow>
     length (blk_data b) = unat kBlockSize \<and>
     unat (blk_head b) + unat (blk_size b) \<le> unat kBlockSize \<and>
     (blk_tail b = blk_head b + blk_size b - 1 \<or> blk_fresh b)"

definition ring_rel :: "CircularBuffer \<Rightarrow> Block list \<Rightarrow> bool" where
  "ring_rel r bs \<longleftrightarrow>
     (\<exists>buf. cb_buffer r = Some buf \<and> length buf = unat (cb_max_size r) \<and>
        16 \<le> unat (cb_max_size r) \<and>
        unat (cb_size r) = length bs \<and> 1 \<le> length bs \<and> length bs \<le> unat (cb_max_size r) \<and>
        unat (cb_head r) < unat (cb_max_size r) \<and>
        unat (cb_tail r) = (unat (cb_head r) + (length bs - 1)) mod unat (cb_max_size r) \<and>
        (\<forall>i < unat (cb_max_size r).
           buf ! ((unat (cb_head r) + i) mod unat (cb_max_size r)) =
             (if i < length bs then Some (bs ! i) else None)))"

definition blk_right_closed :: "Block \<Rightarrow> bool" where
  "blk_right_closed b \<longleftrightarrow> unat (blk_head b) + unat (blk_size b) = unat kBlockSize"

definition blk_left_aligned :: "Block \<Rightarrow> bool" where
  "blk_left_aligned b \<longleftrightarrow> blk_head b = 0 \<and> \<not> blk_fresh b"

definition blocks_ok :: "Block list \<Rightarrow> bool" where
  "blocks_ok bs \<longleftrightarrow>
     (\<forall>j < length bs. blk_ok (bs ! j) \<and>
        (j + 1 < length bs \<longrightarrow> blk_right_closed (bs ! j)) \<and>
        (0 < j \<longrightarrow> blk_left_aligned (bs ! j)))"

definition blocks_elems :: "Block list \<Rightarrow> cint list" where
  "blocks_elems bs = concat (map blk_elems bs)"

definition deque_inv :: "nat \<Rightarrow> Deque \<Rightarrow> Block list \<Rightarrow> bool" where
  "deque_inv n d bs \<longleftrightarrow>
     ring_rel (dq_data_proxy d) bs \<and> blocks_ok bs \<and>
     unat (dq_size d) = length (blocks_elems bs) \<and>
     length (blocks_elems bs) \<le> n \<and> length bs \<le> n + 1 \<and>
     unat (cb_max_size (dq_data_proxy d)) \<le> 16 + 2 * n"

definition populated_slots :: "CircularBuffer \<Rightarrow> nat list" where
  "populated_slots r =
     (case cb_buffer r of
        None \<Rightarrow> []
      | Some buf \<Rightarrow> filter (\<lambda>i. buf ! i \<noteq> None) [0 ..< length buf])"

definition ring_range :: "CircularBuffer \<Rightarrow> nat list" where
  "ring_range r =
     map (\<lambda>j. (unat (cb_head r) + j) mod unat (cb_max_size r)) [0 ..< unat (cb_size r)]"

definition ring_consistent :: "CircularBuffer \<Rightarrow> bool" where
  "ring_consistent r \<longleftrightarrow>
     length (populated_slots r) = unat (cb_size r) \<and>
     set (populated_slots r) = set (ring_range r) \<and>
     ring_range r \<noteq> [] \<and>
     hd (ring_range r) = unat (cb_head r) \<and> last (ring_range r) = unat (cb_tail r)"

definition ring_slot :: "CircularBuffer \<Rightarrow> nat \<Rightarrow> size_t" where
  "ring_slot r j = word_of_nat ((unat (cb_head r) + j) mod unat (cb_max_size r))"

definition middle_blocks_full :: "Deque \<Rightarrow> bool" where
  "middle_blocks_full d \<longleftrightarrow>
     (\<forall>j \<in> set [1 ..< unat (cb_size (dq_data_proxy d)) - 1].
        case slot_deref (dq_data_proxy d) (ring_slot (dq_data_proxy d) j) of
          Inl e \<Rightarrow> False
        | Inr b \<Rightarrow> blk_size b = kBlockSize \<and> blk_head b = 0)"

definition reserved_inv :: "nat \<Rightarrow> nat \<Rightarrow> Deque \<Rightarrow> bool" where
  "reserved_inv j s d \<longleftrightarrow>
     (\<exists>buf T. cb_buffer (dq_data_proxy d) = Some buf \<and> length buf = 16 \<and>
        cb_max_size (dq_data_proxy d) = 16 \<and> cb_head (dq_data_proxy d) = 0 \<and>
        unat (cb_tail (dq_data_proxy d)) = j \<and> unat (cb_size (dq_data_proxy d)) = 9 + j \<and>
        j \<le> 7 \<and> buf ! j = Some T \<and> blk_ok T \<and> blk_head T = 0 \<and>
        unat (blk_size T) = s \<and>
        (\<forall>i. j < i \<and> i < 16 \<longrightarrow> buf ! i = None))"

section \<open>Evaluation\<close>

lemma bindE_simps [simp]:
  "bindE (Inl e) f = Inl e"
  "bindE (Inr x) f = f x"
  by (simp_all add: bindE_def)

lemma unat_minus_1_size_t: "unat (- 1 :: size_t) = 18446744073709551615"
  by (simp add: unsigned_minus_1_eq_mask mask_eq_exp_minus_1)

lemmas block_defs =
  Block_new_def Block_PushFront_def Block_PushBack_def Block_PopFront_def Block_PopBack_def
  Block_Get_def Block_IsEmpty_def Block_IsFull_def Block_IsHeadShifted_def Block_IsRightClose_def

lemmas ring_defs =
  slot_ptr_def slot_deref_def slot_assign_def CircularBuffer_default_def AddTailDataBlock_def
  AddHeadDataBlock_def DeleteDataBlockFromTail_def DeleteDataBlockFromHead_def
  CircularBuffer_IsFull_def CircularBuffer_IsEmpty_def IsTailDataBlockFull_def
  IsHeadDataBlockFull_def TailIsUsedHead_def IsHeadStartNotShifted_def GetTailDataBlock_def
  locate_element_def GetElementByIndex_def

lemmas deque_defs =
  Deque_default_def Deque_PushBack_def Deque_PopBack_def Deque_PushFront_def Deque_PopFront_def
  Deque_index_def Deque_Size_def Deque_read_all_def

lemmas eval_defs =
  arr_read_def arr_write_def kBlockSize_def kBufferInitMaxSize_def block_defs ring_defs deque_defs
  Let_def unat_minus_1_size_t

section \<open>Block lemmas\<close>

lemma unat_kBlockSize [simp]: "unat kBlockSize = 128"
  by (simp add: kBlockSize_def)

lemma unat_add_small:
  fixes a b :: size_t
  assumes "unat a + unat b < 2 ^ 64"
  shows "unat (a + b) = unat a + unat b"
proof -
  have "unat a + unat b < 2 ^ LENGTH(64)" using assms by simp
  then show ?thesis by (simp only: unat_add_lem)
qed

lemma unat_add1_small:
  fixes a :: size_t
  assumes "unat a + 1 < 2 ^ 64"
  shows "unat (a + 1) = unat a + 1"
  using unat_add_small [of a 1] assms by simp

lemma unat_sub1:
  fixes a :: size_t
  assumes "a \<noteq> 0"
  shows "unat (a - 1) = unat a - 1"
  using assms by (rule unat_minus_one)

lemma take_drop_snoc:
  assumes "h + s < length xs"
  shows "take (Suc s) (drop h (xs[h + s := v])) = take s (drop h xs) @ [v]"
proof -
  have "drop h (xs[h + s := v]) = (drop h xs)[s := v]"
    by (simp add: drop_update_swap)
  moreover have "s < length (drop h xs)" using assms by simp
  ultimately show ?thesis
    by (simp add: take_Suc_conv_app_nth)
qed

lemma take_drop_cons:
  assumes "0 < h" "h + s \<le> length xs"
  shows "take (Suc s) (drop (h - 1) (xs[h - 1 := v])) = v # take s (drop h xs)"
proof -
  have lt: "h - 1 < length xs" using assms by simp
  have "drop (h - 1) (xs[h - 1 := v]) = v # drop (Suc (h - 1)) (xs[h - 1 := v])"
    using lt by (metis Cons_nth_drop_Suc length_list_update nth_list_update_eq)
  also have "drop (Suc (h - 1)) (xs[h - 1 := v]) = drop h xs"
    using assms by simp
  finally show ?thesis by simp
qed

lemma take_drop_butlast:
  assumes "0 < s" "h + s \<le> length xs"
  shows "take (s - 1) (drop h (xs[h + s - 1 := v])) = butlast (take s (drop h xs))"
proof -
  have "drop h (xs[h + s - 1 := v]) = (drop h xs)[s - 1 := v]"
    using assms by (simp add: drop_update_swap)
  moreover have "butlast (take s (drop h xs)) = take (s - 1) (drop h xs)"
    using assms by (simp add: butlast_take)
  ultimately show ?thesis by simp
qed

lemma take_drop_tl:
  assumes "0 < s" "h + s \<le> length xs"
  shows "take (s - 1) (drop (Suc h) (xs[h := v])) = tl (take s (drop h xs))"
proof -
  have "tl (take s (drop h xs)) = take (s - 1) (tl (drop h xs))"
    by (simp add: tl_take)
  also have "tl (drop h xs) = drop (Suc h) xs"
    by (simp add: drop_Suc tl_drop)
  finally show ?thesis by simp
qed

lemma Block_PushBack_ok:
  assumes ok: "blk_ok b" and room: "unat (blk_head b) + unat (blk_size b) < 128"
  shows "\<exists>b'. Block_PushBack kBlockSize v b = Inr b' \<and> blk_ok b' \<and> \<not> blk_fresh b' \<and>
           blk_elems b' = blk_elems b @ [v] \<and> blk_head b' = blk_head b \<and>
           unat (blk_size b') = unat (blk_size b) + 1"
proof (cases "blk_fresh b")
  case True
  with ok show ?thesis
    by (simp add: Block_PushBack_def blk_fresh_def blk_ok_def blk_elems_def arr_write_def
        take_Suc_conv_app_nth)
next
  case False
  with ok have tl: "blk_tail b = blk_head b + blk_size b - 1"
    by (simp add: blk_ok_def)
  from ok have len: "length (blk_data b) = 128" by (simp add: blk_ok_def)
  have hs: "unat (blk_head b + blk_size b) = unat (blk_head b) + unat (blk_size b)"
    using room by (simp add: unat_add_small)
  have s1: "unat (blk_size b + 1) = unat (blk_size b) + 1"
    using room by (simp add: unat_add1_small)
  have nochk: "\<not> (blk_head b = blk_tail b \<and> blk_tail b = 0 \<and> blk_size b = 0)"
    using False by (auto simp: blk_fresh_def)
  have t1: "blk_tail b + 1 = blk_head b + blk_size b" using tl by simp
  have el: "take (Suc (unat (blk_size b)))
              (drop (unat (blk_head b)) ((blk_data b)[unat (blk_head b) + unat (blk_size b) := v]))
            = take (unat (blk_size b)) (drop (unat (blk_head b)) (blk_data b)) @ [v]"
    using room len by (intro take_drop_snoc) simp
  have "Block_PushBack kBlockSize v b =
          Inr (b\<lparr>blk_data := (blk_data b)[unat (blk_head b) + unat (blk_size b) := v],
                 blk_tail := blk_head b + blk_size b, blk_size := blk_size b + 1\<rparr>)"
    unfolding Block_PushBack_def using room len
    by (simp only: nochk if_False) (simp add: arr_write_def t1 hs)
  moreover have "blk_size b + 1 \<noteq> 0"
    using s1 by (metis Suc_eq_plus1 nat.distinct(1) unat_0_iff)
  ultimately show ?thesis
    using room len
    by (simp add: s1 blk_ok_def blk_fresh_def blk_elems_def el)
qed

lemma blk_ok_bounds:
  assumes "blk_ok b"
  shows "unat (blk_head b) \<le> 128" "unat (blk_size b) \<le> 128" "length (blk_data b) = 128"
  using assms by (simp_all add: blk_ok_def)

lemma Block_PushFront_fresh:
  assumes ok: "blk_ok b" and fresh: "blk_fresh b"
  shows "\<exists>b'. Block_PushFront kBlockSize v b = Inr b' \<and> blk_ok b' \<and> \<not> blk_fresh b' \<and>
           blk_elems b' = [v] \<and> unat (blk_head b') = 127 \<and> unat (blk_size b') = 1"
proof -
  from ok have len: "length (blk_data b) = 128" by (simp add: blk_ok_def)
  have "take (Suc 0) (drop 127 ((blk_data b)[127 := v])) = [v]"
    using len take_drop_cons [of 128 0 "blk_data b" v] by simp
  then show ?thesis
    using fresh len
    by (simp add: Block_PushFront_def blk_fresh_def blk_ok_def blk_elems_def arr_write_def
        kBlockSize_def)
qed

lemma Block_PushFront_shift:
  assumes ok: "blk_ok b" and hd: "blk_head b \<noteq> 0"
  shows "\<exists>b'. Block_PushFront kBlockSize v b = Inr b' \<and> blk_ok b' \<and> \<not> blk_fresh b' \<and>
           blk_elems b' = v # blk_elems b \<and> unat (blk_head b') = unat (blk_head b) - 1 \<and>
           unat (blk_size b') = unat (blk_size b) + 1 \<and> blk_tail b' = blk_tail b"
proof -
  from ok hd have tl: "blk_tail b = blk_head b + blk_size b - 1"
    by (auto simp: blk_ok_def blk_fresh_def)
  from ok have len: "length (blk_data b) = 128"
    and bnd: "unat (blk_head b) + unat (blk_size b) \<le> 128"
    by (simp_all add: blk_ok_def)
  have hpos: "0 < unat (blk_head b)" using hd by (simp add: unat_gt_0)
  have h1: "unat (blk_head b - 1) = unat (blk_head b) - 1"
    using hd by (rule unat_minus_one)
  have s1: "unat (blk_size b + 1) = unat (blk_size b) + 1"
    using bnd by (simp add: unat_add1_small)
  have snz: "blk_size b + 1 \<noteq> 0"
    using s1 by (metis Suc_eq_plus1 nat.distinct(1) unat_0_iff)
  have nochk: "\<not> (blk_head b = blk_tail b \<and> blk_head b = 0)" using hd by simp
  have eq: "Block_PushFront kBlockSize v b =
          Inr (b\<lparr>blk_data := (blk_data b)[unat (blk_head b) - 1 := v],
                 blk_head := blk_head b - 1, blk_size := blk_size b + 1\<rparr>)"
    unfolding Block_PushFront_def using hpos bnd len
    by (simp only: nochk if_False) (simp add: arr_write_def h1)
  have el: "take (Suc (unat (blk_size b)))
              (drop (unat (blk_head b) - 1) ((blk_data b)[unat (blk_head b) - 1 := v]))
            = v # take (unat (blk_size b)) (drop (unat (blk_head b)) (blk_data b))"
    using hpos bnd len by (intro take_drop_cons) simp_all
  show ?thesis
    using hpos bnd len snz el
    by (simp add: eq h1 s1 blk_ok_def blk_fresh_def blk_elems_def tl)
qed

lemma Block_PushFront_stuck:
  assumes ok: "blk_ok b" and nf: "\<not> blk_fresh b" and hd: "blk_head b = 0" and sz: "blk_size b = 0"
  shows "Block_PushFront kBlockSize v b = Inl OutOfBounds"
proof -
  from ok nf hd sz have tl: "blk_tail b = - 1"
    by (simp add: blk_ok_def)
  from ok have len: "length (blk_data b) = 128" by (simp add: blk_ok_def)
  show ?thesis
    using len by (simp add: Block_PushFront_def hd tl arr_write_def unat_minus_1_size_t)
qed

lemma Block_PopBack_ok:
  assumes ok: "blk_ok b" and ne: "blk_size b \<noteq> 0"
  shows "\<exists>b'. Block_PopBack b = Inr b' \<and> blk_ok b' \<and> \<not> blk_fresh b' \<and>
           blk_elems b' = butlast (blk_elems b) \<and> blk_head b' = blk_head b \<and>
           unat (blk_size b') = unat (blk_size b) - 1"
proof -
  from ok ne have tl: "blk_tail b = blk_head b + blk_size b - 1"
    by (auto simp: blk_ok_def blk_fresh_def)
  from ok have len: "length (blk_data b) = 128"
    and bnd: "unat (blk_head b) + unat (blk_size b) \<le> 128"
    by (simp_all add: blk_ok_def)
  have spos: "0 < unat (blk_size b)" using ne by (simp add: unat_gt_0)
  have s1: "unat (blk_size b - 1) = unat (blk_size b) - 1"
    using ne by (rule unat_minus_one)
  have hs: "unat (blk_head b + blk_size b) = unat (blk_head b) + unat (blk_size b)"
    using bnd by (simp add: unat_add_small)
  have hsnz: "blk_head b + blk_size b \<noteq> 0"
    using hs spos by (metis add_is_0 not_less0 unat_0_iff)
  have t: "unat (blk_tail b) = unat (blk_head b) + unat (blk_size b) - 1"
    unfolding tl using hsnz by (simp add: unat_minus_one hs)
  have eq: "Block_PopBack b =
          Inr (b\<lparr>blk_data := (blk_data b)[unat (blk_head b) + unat (blk_size b) - 1 := 0],
                 blk_tail := blk_tail b - 1, blk_size := blk_size b - 1\<rparr>)"
    unfolding Block_PopBack_def using spos bnd len
    by (simp add: arr_write_def t)
  have el: "take (unat (blk_size b) - 1)
              (drop (unat (blk_head b)) ((blk_data b)[unat (blk_head b) + unat (blk_size b) - 1 := 0]))
            = butlast (take (unat (blk_size b)) (drop (unat (blk_head b)) (blk_data b)))"
    using spos bnd len by (intro take_drop_butlast) simp_all
  have nf: "blk_size b - 1 = 0 \<Longrightarrow> blk_head b = 0 \<Longrightarrow> blk_tail b - 1 \<noteq> 0"
  proof -
    assume "blk_size b - 1 = 0" and h0: "blk_head b = 0"
    then have "blk_size b = 1" by simp
    with tl h0 have "blk_tail b = 0" by simp
    then show ?thesis by simp
  qed
  show ?thesis
    using spos bnd len nf el
    by (auto simp: eq s1 blk_ok_def blk_fresh_def blk_elems_def tl)
qed

lemma Block_PopBack_stuck:
  assumes ok: "blk_ok b" and nf: "\<not> blk_fresh b" and hd: "blk_head b = 0" and sz: "blk_size b = 0"
  shows "Block_PopBack b = Inl OutOfBounds"
proof -
  from ok nf hd sz have tl: "blk_tail b = - 1"
    by (simp add: blk_ok_def)
  from ok have len: "length (blk_data b) = 128" by (simp add: blk_ok_def)
  show ?thesis
    using len by (simp add: Block_PopBack_def tl arr_write_def unat_minus_1_size_t)
qed

lemma Block_PopFront_ok:
  assumes ok: "blk_ok b" and ne: "blk_size b \<noteq> 0"
  shows "\<exists>b'. Block_PopFront b = Inr b' \<and> blk_ok b' \<and> \<not> blk_fresh b' \<and>
           blk_elems b' = tl (blk_elems b) \<and> unat (blk_head b') = unat (blk_head b) + 1 \<and>
           unat (blk_size b') = unat (blk_size b) - 1 \<and> blk_tail b' = blk_tail b"
proof -
  from ok ne have tl: "blk_tail b = blk_head b + blk_size b - 1"
    by (auto simp: blk_ok_def blk_fresh_def)
  from ok have len: "length (blk_data b) = 128"
    and bnd: "unat (blk_head b) + unat (blk_size b) \<le> 128"
    by (simp_all add: blk_ok_def)
  have spos: "0 < unat (blk_size b)" using ne by (simp add: unat_gt_0)
  have s1: "unat (blk_size b - 1) = unat (blk_size b) - 1"
    using ne by (rule unat_minus_one)
  have h1: "unat (blk_head b + 1) = unat (blk_head b) + 1"
    using bnd by (simp add: unat_add1_small)
  have hnz: "blk_head b + 1 \<noteq> 0"
    using h1 by (metis Suc_eq_plus1 nat.distinct(1) unat_0_iff)
  have eq: "Block_PopFront b =
          Inr (b\<lparr>blk_data := (blk_data b)[unat (blk_head b) := 0],
                 blk_head := blk_head b + 1, blk_size := blk_size b - 1\<rparr>)"
    unfolding Block_PopFront_def using spos bnd len
    by (simp add: arr_write_def)
  have el: "take (unat (blk_size b) - 1)
              (drop (Suc (unat (blk_head b))) ((blk_data b)[unat (blk_head b) := 0]))
            = tl (take (unat (blk_size b)) (drop (unat (blk_head b)) (blk_data b)))"
    using spos bnd len by (intro take_drop_tl) simp_all
  show ?thesis
    using spos bnd len hnz el
    by (simp add: eq s1 h1 blk_ok_def blk_fresh_def blk_elems_def tl)
qed

lemma Block_PopFront_stuck:
  assumes ok: "blk_ok b" and hd: "unat (blk_head b) = 128"
  shows "Block_PopFront b = Inl OutOfBounds"
  using assms by (simp add: Block_PopFront_def blk_ok_def arr_write_def)

lemma Block_Get_ok:
  assumes ok: "blk_ok b" and i: "unat i < unat (blk_size b)"
  shows "Block_Get b i = Inr (blk_elems b ! unat i)"
proof -
  from ok have len: "length (blk_data b) = 128"
    and bnd: "unat (blk_head b) + unat (blk_size b) \<le> 128"
    by (simp_all add: blk_ok_def)
  have "unat (blk_head b + i) = unat (blk_head b) + unat i"
    using bnd i by (simp add: unat_add_small)
  then show ?thesis
    using len bnd i by (simp add: Block_Get_def arr_read_def blk_elems_def)
qed

lemma length_blk_elems:
  assumes "blk_ok b"
  shows "length (blk_elems b) = unat (blk_size b)"
  using assms by (auto simp: blk_ok_def blk_elems_def)

lemma Block_IsRightClose_iff:
  assumes "blk_ok b"
  shows "Block_IsRightClose kBlockSize b \<longleftrightarrow> unat (blk_head b) + unat (blk_size b) = 128"
proof -
  from assms have bnd: "unat (blk_head b) + unat (blk_size b) \<le> 128"
    by (simp add: blk_ok_def)
  then have "unat (blk_head b + blk_size b) = unat (blk_head b) + unat (blk_size b)"
    by (simp add: unat_add_small)
  then show ?thesis
    using bnd by (simp add: Block_IsRightClose_def word_le_nat_alt)
qed

lemma Block_IsFull_iff: "Block_IsFull kBlockSize b \<longleftrightarrow> unat (blk_size b) = 128"
  by (simp add: Block_IsFull_def word_unat_eq_iff)

lemma Block_IsEmpty_iff: "Block_IsEmpty b \<longleftrightarrow> unat (blk_size b) = 0"
  by (simp add: Block_IsEmpty_def unat_0_iff)

lemma Block_IsHeadShifted_iff: "Block_IsHeadShifted b \<longleftrightarrow> unat (blk_head b) \<noteq> 0"
  by (simp add: Block_IsHeadShifted_def unat_0_iff)

section \<open>Ring lemmas\<close>

lemma slot_inj:
  fixes M :: nat
  assumes "i < M" "j < M" "(h + i) mod M = (h + j) mod M"
  shows "i = j"
proof (rule ccontr)
  assume ne: "i \<noteq> j"
  have *: "False" if lt: "a < b" and b: "b < M" and eq: "(h + a) mod M = (h + b) mod M" for a b
  proof -
    have "M dvd (h + b) - (h + a)"
      using eq lt by (metis add_le_cancel_left less_imp_le_nat mod_eq_dvd_iff_nat)
    then have "M dvd b - a" by simp
    moreover have "0 < b - a" "b - a < M" using lt b by simp_all
    ultimately show False by (meson dvd_imp_le not_le)
  qed
  from ne consider "i < j" | "j < i" by linarith
  then show False
    using * [of i j] * [of j i] assms by cases simp_all
qed

lemma ring_update:
  fixes M :: nat
  assumes "length buf = M" "j < M"
    and "\<forall>i<M. buf ! ((h + i) mod M) = f i"
  shows "\<forall>i<M. buf[(h + j) mod M := x] ! ((h + i) mod M) = (if i = j then x else f i)"
proof (intro allI impI)
  fix i assume i: "i < M"
  have M: "0 < M" using i by simp
  show "buf[(h + j) mod M := x] ! ((h + i) mod M) = (if i = j then x else f i)"
  proof (cases "i = j")
    case True
    then show ?thesis using assms M by simp
  next
    case False
    then have "(h + j) mod M \<noteq> (h + i) mod M"
      using slot_inj [of j M i h] i assms(2) by auto
    then show ?thesis using False assms i by simp
  qed
qed

lemma ring_rotate:
  fixes M :: nat
  assumes "0 < M" and "\<forall>i<M. buf ! ((h + i) mod M) = g i"
  shows "\<forall>i<M. buf ! (((h + d) mod M + i) mod M) = g ((d + i) mod M)"
proof (intro allI impI)
  fix i assume "i < M"
  have "((h + d) mod M + i) mod M = (h + (d + i)) mod M"
    by (simp add: mod_add_left_eq add.assoc)
  also have "\<dots> = (h + (d + i) mod M) mod M"
    by (simp add: mod_add_right_eq)
  finally show "buf ! (((h + d) mod M + i) mod M) = g ((d + i) mod M)"
    using assms by simp
qed

lemma ring_succ:
  fixes x m :: size_t
  assumes "unat x < unat m"
  shows "unat (if x = m - 1 then 0 else x + 1) = (unat x + 1) mod unat m"
proof -
  have m0: "m \<noteq> 0" using assms by auto
  then have m1: "unat (m - 1) = unat m - 1" by (rule unat_minus_one)
  show ?thesis
  proof (cases "x = m - 1")
    case True
    then have "unat x = unat m - 1" using m1 by simp
    then show ?thesis using True assms by simp
  next
    case False
    then have "unat x \<noteq> unat m - 1" using m1 by (metis word_unat_eq_iff)
    with assms have lt: "unat x + 1 < unat m" by simp
    have "unat m < 2 ^ 64" using unsigned_less [of m, where 'a = nat] by simp
    with lt have "unat (x + 1) = unat x + 1" by (simp add: unat_add1_small)
    then show ?thesis using False lt by simp
  qed
qed

lemma ring_pred:
  fixes x m :: size_t
  assumes "unat x < unat m"
  shows "unat (if x = 0 then m - 1 else x - 1) = (unat x + (unat m - 1)) mod unat m"
proof -
  have m0: "m \<noteq> 0" using assms by auto
  then have m1: "unat (m - 1) = unat m - 1" by (rule unat_minus_one)
  show ?thesis
  proof (cases "x = 0")
    case True
    then show ?thesis using m1 assms by simp
  next
    case False
    then have x1: "unat (x - 1) = unat x - 1" by (rule unat_minus_one)
    have pos: "0 < unat x" using False by (simp add: unat_gt_0)
    have "unat x + (unat m - 1) = (unat x - 1) + unat m" using pos assms by simp
    then have "(unat x + (unat m - 1)) mod unat m = (unat x - 1) mod unat m"
      by simp
    also have "\<dots> = unat x - 1" using assms by simp
    finally show ?thesis using False x1 by simp
  qed
qed

lemma slot_deref_ring:
  assumes rel: "ring_rel r bs" and j: "j < length bs"
    and p: "unat p = (unat (cb_head r) + j) mod unat (cb_max_size r)"
  shows "slot_deref r p = Inr (bs ! j)"
proof -
  from rel obtain buf where buf: "cb_buffer r = Some buf" "length buf = unat (cb_max_size r)"
    and k: "length bs \<le> unat (cb_max_size r)"
    and slots: "\<forall>i < unat (cb_max_size r).
           buf ! ((unat (cb_head r) + i) mod unat (cb_max_size r)) =
             (if i < length bs then Some (bs ! i) else None)"
    by (auto simp: ring_rel_def)
  have jM: "j < unat (cb_max_size r)" using j k by simp
  then have "unat p < length buf" using p buf by simp
  moreover have "buf ! unat p = Some (bs ! j)" using slots jM j p by simp
  ultimately show ?thesis
    using buf by (simp add: slot_deref_def slot_ptr_def arr_read_def)
qed

lemma slot_deref_head:
  assumes "ring_rel r bs"
  shows "slot_deref r (cb_head r) = Inr (hd bs)"
proof -
  from assms have "0 < length bs" "unat (cb_head r) < unat (cb_max_size r)"
    by (auto simp: ring_rel_def)
  then show ?thesis
    using slot_deref_ring [OF assms, of 0 "cb_head r"] by (simp add: hd_conv_nth)
qed

lemma slot_deref_tail:
  assumes "ring_rel r bs"
  shows "slot_deref r (cb_tail r) = Inr (last bs)"
proof -
  from assms have "0 < length bs"
    "unat (cb_tail r) = (unat (cb_head r) + (length bs - 1)) mod unat (cb_max_size r)"
    by (auto simp: ring_rel_def)
  then show ?thesis
    using slot_deref_ring [OF assms, of "length bs - 1" "cb_tail r"] by (simp add: last_conv_nth)
qed

lemma slot_assign_ring:
  assumes rel: "ring_rel r bs" and j: "j < length bs"
    and p: "unat p = (unat (cb_head r) + j) mod unat (cb_max_size r)"
  shows "\<exists>r'. slot_assign r p (Some b) = Inr r' \<and> ring_rel r' (bs[j := b]) \<and>
           cb_size r' = cb_size r \<and> cb_max_size r' = cb_max_size r \<and>
           cb_head r' = cb_head r \<and> cb_tail r' = cb_tail r"
proof -
  from rel obtain buf where buf: "cb_buffer r = Some buf" "length buf = unat (cb_max_size r)"
    and k: "length bs \<le> unat (cb_max_size r)"
    and slots: "\<forall>i < unat (cb_max_size r).
           buf ! ((unat (cb_head r) + i) mod unat (cb_max_size r)) =
             (if i < length bs then Some (bs ! i) else None)"
    by (auto simp: ring_rel_def)
  have jM: "j < unat (cb_max_size r)" using j k by simp
  then have inb: "unat p < length buf" using p buf by simp
  have eq: "slot_assign r p (Some b) = Inr (r\<lparr>cb_buffer := Some (buf[unat p := Some b])\<rparr>)"
    using buf inb by (simp add: slot_assign_def arr_write_def)
  have "\<forall>i < unat (cb_max_size r).
          buf[unat p := Some b] ! ((unat (cb_head r) + i) mod unat (cb_max_size r)) =
            (if i = j then Some b else (if i < length bs then Some (bs ! i) else None))"
    unfolding p using buf(2) jM slots by (rule ring_update)
  then have "\<forall>i < unat (cb_max_size r).
          buf[unat p := Some b] ! ((unat (cb_head r) + i) mod unat (cb_max_size r)) =
            (if i < length (bs[j := b]) then Some (bs[j := b] ! i) else None)"
    using j by (auto simp: nth_list_update)
  then have "ring_rel (r\<lparr>cb_buffer := Some (buf[unat p := Some b])\<rparr>) (bs[j := b])"
    using rel buf by (simp add: ring_rel_def)
  then show ?thesis using eq by simp
qed

lemma mod_succ_shift:
  fixes M :: nat
  assumes "0 < k"
  shows "((h + (k - 1)) mod M + 1) mod M = (h + k) mod M"
proof -
  have "((h + (k - 1)) mod M + 1) mod M = (h + (k - 1) + 1) mod M"
    by (simp add: mod_Suc_eq)
  moreover have "h + (k - 1) + 1 = h + k" using assms by simp
  ultimately show ?thesis by (simp only:)
qed

lemma AddTailDataBlock_ring:
  assumes rel: "ring_rel r bs" and room: "length bs < unat (cb_max_size r)"
  shows "\<exists>r'. AddTailDataBlock BlockSize r = Inr r' \<and> ring_rel r' (bs @ [Block_new BlockSize]) \<and>
           cb_max_size r' = cb_max_size r"
proof -
  let ?M = "unat (cb_max_size r)" and ?h = "unat (cb_head r)" and ?k = "length bs"
  from rel obtain buf where buf: "cb_buffer r = Some buf" "length buf = ?M"
    and k: "unat (cb_size r) = ?k" "1 \<le> ?k"
    and h: "?h < ?M" and M: "16 \<le> ?M"
    and t: "unat (cb_tail r) = (?h + (?k - 1)) mod ?M"
    and slots: "\<forall>i < ?M. buf ! ((?h + i) mod ?M) = (if i < ?k then Some (bs ! i) else None)"
    by (auto simp: ring_rel_def)
  define t' where "t' = (if cb_tail r = cb_max_size r - 1 then 0 else cb_tail r + 1)"
  have tlt: "unat (cb_tail r) < ?M" using t h by simp
  have "unat t' = (unat (cb_tail r) + 1) mod ?M"
    unfolding t'_def using tlt by (rule ring_succ)
  also have "\<dots> = ((?h + (?k - 1)) mod ?M + 1) mod ?M" by (simp only: t)
  also have "\<dots> = (?h + ?k) mod ?M" using k by (intro mod_succ_shift) linarith
  finally have t': "unat t' = (?h + ?k) mod ?M" .
  have inb: "unat t' < length buf" using t' buf h by simp
  have Mlt: "?M < 2 ^ 64" using unsigned_less [of "cb_max_size r", where 'a = nat] by simp
  have sz: "unat (cb_size r + 1) = ?k + 1"
    using k room Mlt by (simp add: unat_add1_small)
  have eq: "AddTailDataBlock BlockSize r =
      Inr (r\<lparr>cb_tail := t', cb_buffer := Some (buf[unat t' := Some (Block_new BlockSize)]),
             cb_size := cb_size r + 1\<rparr>)"
    using buf inb by (simp add: AddTailDataBlock_def slot_assign_def arr_write_def t'_def Let_def)
  have "\<forall>i < ?M. buf[(?h + ?k) mod ?M := Some (Block_new BlockSize)] ! ((?h + i) mod ?M) =
            (if i = ?k then Some (Block_new BlockSize)
             else (if i < ?k then Some (bs ! i) else None))"
    using buf(2) room slots by (rule ring_update)
  then have "\<forall>i < ?M. buf[unat t' := Some (Block_new BlockSize)] ! ((?h + i) mod ?M) =
            (if i < length (bs @ [Block_new BlockSize])
             then Some ((bs @ [Block_new BlockSize]) ! i) else None)"
    unfolding t' by (auto simp: nth_append)
  then have "ring_rel (r\<lparr>cb_tail := t', cb_buffer := Some (buf[unat t' := Some (Block_new BlockSize)]),
             cb_size := cb_size r + 1\<rparr>) (bs @ [Block_new BlockSize])"
    using buf h M room sz t' by (simp add: ring_rel_def)
  then show ?thesis using eq by simp
qed

lemma DeleteDataBlockFromTail_ring:
  assumes rel: "ring_rel r bs" and two: "2 \<le> length bs"
  shows "\<exists>r'. DeleteDataBlockFromTail r = Inr r' \<and> ring_rel r' (butlast bs) \<and>
           cb_max_size r' = cb_max_size r"
proof -
  let ?M = "unat (cb_max_size r)" and ?h = "unat (cb_head r)" and ?k = "length bs"
  from rel obtain buf where buf: "cb_buffer r = Some buf" "length buf = ?M"
    and k: "unat (cb_size r) = ?k" "?k \<le> ?M"
    and h: "?h < ?M" and M: "16 \<le> ?M"
    and t: "unat (cb_tail r) = (?h + (?k - 1)) mod ?M"
    and slots: "\<forall>i < ?M. buf ! ((?h + i) mod ?M) = (if i < ?k then Some (bs ! i) else None)"
    by (auto simp: ring_rel_def)
  have tlt: "unat (cb_tail r) < ?M" using t h by simp
  have ne: "cb_tail r \<noteq> cb_head r"
  proof
    assume "cb_tail r = cb_head r"
    then have "(?h + (?k - 1)) mod ?M = (?h + 0) mod ?M" using t h by simp
    then have "?k - 1 = 0" using k two by (intro slot_inj [of _ ?M 0 ?h]) simp_all
    then show False using two by simp
  qed
  define t' where "t' = (if cb_tail r = 0 then cb_max_size r - 1 else cb_tail r - 1)"
  have "(?h + (?k - 1) + (?M - 1)) mod ?M = (?h + (?k - 2) + ?M) mod ?M"
    using two M by (intro arg_cong [where f = "\<lambda>x. x mod ?M"]) simp
  then have "unat t' = (?h + (?k - 2)) mod ?M"
    unfolding t'_def using ring_pred [OF tlt] t
    by (simp add: mod_add_left_eq)
  moreover have "?k - 2 = length (butlast bs) - 1" by simp
  ultimately have t': "unat t' = (?h + (length (butlast bs) - 1)) mod ?M" by (simp only:)
  have k': "1 \<le> length (butlast bs)" "length (butlast bs) \<le> ?M" "length (butlast bs) = ?k - 1"
    using two k by simp_all
  have cs: "cb_size r \<noteq> 0" using k two by auto
  have sz: "unat (cb_size r - 1) = ?k - 1"
    using unat_minus_one [OF cs] k by simp
  have eq: "DeleteDataBlockFromTail r =
      Inr (r\<lparr>cb_buffer := Some (buf[unat (cb_tail r) := None]), cb_tail := t',
             cb_size := cb_size r - 1\<rparr>)"
    using buf tlt ne by (simp add: DeleteDataBlockFromTail_def slot_assign_def arr_write_def t'_def)
  have km: "?k - 1 < ?M" using k two by simp
  have "\<forall>i < ?M. buf[(?h + (?k - 1)) mod ?M := None] ! ((?h + i) mod ?M) =
            (if i = ?k - 1 then None else (if i < ?k then Some (bs ! i) else None))"
    using buf(2) km slots by (rule ring_update)
  then have "\<forall>i < ?M. buf[unat (cb_tail r) := None] ! ((?h + i) mod ?M) =
            (if i < length (butlast bs) then Some (butlast bs ! i) else None)"
    unfolding t by (auto simp: nth_butlast)
  then have "ring_rel (r\<lparr>cb_buffer := Some (buf[unat (cb_tail r) := None]), cb_tail := t',
             cb_size := cb_size r - 1\<rparr>) (butlast bs)"
    unfolding ring_rel_def using buf h M k' sz t' by (simp del: length_butlast)
  then show ?thesis using eq by simp
qed

lemma AddHeadDataBlock_ring:
  assumes rel: "ring_rel r bs" and room: "length bs < unat (cb_max_size r)"
  shows "\<exists>r'. AddHeadDataBlock BlockSize r = Inr r' \<and> ring_rel r' (Block_new BlockSize # bs) \<and>
           cb_max_size r' = cb_max_size r"
proof -
  let ?M = "unat (cb_max_size r)" and ?h = "unat (cb_head r)" and ?k = "length bs"
  from rel obtain buf where buf: "cb_buffer r = Some buf" "length buf = ?M"
    and k: "unat (cb_size r) = ?k" "1 \<le> ?k"
    and h: "?h < ?M" and M: "16 \<le> ?M"
    and t: "unat (cb_tail r) = (?h + (?k - 1)) mod ?M"
    and slots: "\<forall>i < ?M. buf ! ((?h + i) mod ?M) = (if i < ?k then Some (bs ! i) else None)"
    by (auto simp: ring_rel_def)
  define h' where "h' = (if cb_head r = 0 then cb_max_size r - 1 else cb_head r - 1)"
  have h': "unat h' = (?h + (?M - 1)) mod ?M"
    unfolding h'_def using ring_pred [OF h] by simp
  have inb: "unat h' < length buf" using h' buf h by simp
  have Mlt: "?M < 2 ^ 64" using unsigned_less [of "cb_max_size r", where 'a = nat] by simp
  have sz: "unat (cb_size r + 1) = ?k + 1"
    using k room Mlt by (simp add: unat_add1_small)
  let ?buf' = "buf[unat h' := Some (Block_new BlockSize)]"
  have eq: "AddHeadDataBlock BlockSize r =
      Inr (r\<lparr>cb_head := h', cb_buffer := Some ?buf', cb_size := cb_size r + 1\<rparr>)"
    using buf inb by (simp add: AddHeadDataBlock_def slot_assign_def arr_write_def h'_def Let_def)
  let ?g = "\<lambda>i. if i = ?M - 1 then Some (Block_new BlockSize)
             else (if i < ?k then Some (bs ! i) else None)"
  have M1: "?M - 1 < ?M" using M by simp
  have "\<forall>i < ?M. buf[(?h + (?M - 1)) mod ?M := Some (Block_new BlockSize)] ! ((?h + i) mod ?M) = ?g i"
    using buf(2) M1 slots by (rule ring_update)
  then have g: "\<forall>i < ?M. ?buf' ! ((?h + i) mod ?M) = ?g i"
    unfolding h' .
  have M0: "0 < ?M" using M by simp
  have "\<forall>i < ?M. ?buf' ! (((?h + (?M - 1)) mod ?M + i) mod ?M) = ?g ((?M - 1 + i) mod ?M)"
    using M0 g by (rule ring_rotate)
  then have rot: "\<forall>i < ?M. ?buf' ! ((unat h' + i) mod ?M) = ?g ((?M - 1 + i) mod ?M)"
    by (simp only: h')
  have "\<forall>i < ?M. ?buf' ! ((unat h' + i) mod ?M) =
          (if i < length (Block_new BlockSize # bs) then Some ((Block_new BlockSize # bs) ! i) else None)"
  proof (intro allI impI)
    fix i assume i: "i < ?M"
    show "?buf' ! ((unat h' + i) mod ?M) =
          (if i < length (Block_new BlockSize # bs) then Some ((Block_new BlockSize # bs) ! i) else None)"
    proof (cases i)
      case 0
      have "?buf' ! ((unat h' + i) mod ?M) = ?g ((?M - 1 + i) mod ?M)"
        using rot i by blast
      moreover have "(?M - 1 + i) mod ?M = ?M - 1" using 0 M0 by simp
      ultimately show ?thesis using 0 by simp
    next
      case (Suc n)
      have "?M - 1 + i = n + ?M" using Suc M0 by simp
      then have "(?M - 1 + i) mod ?M = (n + ?M) mod ?M" by (simp only:)
      also have "\<dots> = n" using i Suc by simp
      finally have n: "(?M - 1 + i) mod ?M = n" .
      have nM: "n \<noteq> ?M - 1" using i Suc by simp
      have "?buf' ! ((unat h' + i) mod ?M) = ?g ((?M - 1 + i) mod ?M)"
        using rot i by blast
      also have "\<dots> = ?g n" by (simp only: n)
      also have "\<dots> = (if n < ?k then Some (bs ! n) else None)" using nM by simp
      finally show ?thesis using Suc by simp
    qed
  qed
  moreover have "unat (cb_tail r) = (unat h' + ?k) mod ?M"
  proof -
    have "(unat h' + ?k) mod ?M = (?h + (?M - 1) + ?k) mod ?M"
      unfolding h' by (simp add: mod_add_left_eq)
    also have "?h + (?M - 1) + ?k = ?h + (?k - 1) + ?M" using k M0 by simp
    also have "(?h + (?k - 1) + ?M) mod ?M = (?h + (?k - 1)) mod ?M" by simp
    finally show ?thesis using t by simp
  qed
  ultimately have "ring_rel (r\<lparr>cb_head := h', cb_buffer := Some ?buf', cb_size := cb_size r + 1\<rparr>)
      (Block_new BlockSize # bs)"
    using buf h M room sz h' by (simp add: ring_rel_def)
  then show ?thesis using eq by simp
qed

lemma DeleteDataBlockFromHead_ring:
  assumes rel: "ring_rel r bs" and two: "2 \<le> length bs"
  shows "\<exists>r'. DeleteDataBlockFromHead r = Inr r' \<and> ring_rel r' (tl bs) \<and>
           cb_max_size r' = cb_max_size r"
proof -
  let ?M = "unat (cb_max_size r)" and ?h = "unat (cb_head r)" and ?k = "length bs"
  from rel obtain buf where buf: "cb_buffer r = Some buf" "length buf = ?M"
    and k: "unat (cb_size r) = ?k" "?k \<le> ?M"
    and h: "?h < ?M" and M: "16 \<le> ?M"
    and t: "unat (cb_tail r) = (?h + (?k - 1)) mod ?M"
    and slots: "\<forall>i < ?M. buf ! ((?h + i) mod ?M) = (if i < ?k then Some (bs ! i) else None)"
    by (auto simp: ring_rel_def)
  have M0: "0 < ?M" using M by simp
  have ne: "cb_head r \<noteq> cb_tail r"
  proof
    assume "cb_head r = cb_tail r"
    then have "(?h + (?k - 1)) mod ?M = (?h + 0) mod ?M" using t h by simp
    then have "?k - 1 = 0" using k two by (intro slot_inj [of _ ?M 0 ?h]) simp_all
    then show False using two by simp
  qed
  define h' where "h' = (if cb_head r = cb_max_size r - 1 then 0 else cb_head r + 1)"
  have h': "unat h' = (?h + 1) mod ?M"
    unfolding h'_def using ring_succ [OF h] by simp
  have cs: "cb_size r \<noteq> 0" using k two by auto
  have sz: "unat (cb_size r - 1) = ?k - 1"
    using unat_minus_one [OF cs] k by simp
  let ?buf' = "buf[?h := None]"
  have eq: "DeleteDataBlockFromHead r =
      Inr (r\<lparr>cb_buffer := Some ?buf', cb_head := h', cb_size := cb_size r - 1\<rparr>)"
    using buf h ne by (simp add: DeleteDataBlockFromHead_def slot_assign_def arr_write_def h'_def)
  let ?g = "\<lambda>i. if i = 0 then None else (if i < ?k then Some (bs ! i) else None)"
  have "\<forall>i < ?M. buf[(?h + 0) mod ?M := None] ! ((?h + i) mod ?M) = ?g i"
    using buf(2) M0 slots by (rule ring_update)
  then have g: "\<forall>i < ?M. ?buf' ! ((?h + i) mod ?M) = ?g i"
    using h by simp
  have "\<forall>i < ?M. ?buf' ! (((?h + 1) mod ?M + i) mod ?M) = ?g ((1 + i) mod ?M)"
    using M0 g by (rule ring_rotate)
  then have rot: "\<forall>i < ?M. ?buf' ! ((unat h' + i) mod ?M) = ?g ((1 + i) mod ?M)"
    by (simp only: h')
  have "\<forall>i < ?M. ?buf' ! ((unat h' + i) mod ?M) =
          (if i < length (tl bs) then Some (tl bs ! i) else None)"
  proof (intro allI impI)
    fix i assume i: "i < ?M"
    show "?buf' ! ((unat h' + i) mod ?M) = (if i < length (tl bs) then Some (tl bs ! i) else None)"
    proof (cases "i = ?M - 1")
      case True
      have "?buf' ! ((unat h' + i) mod ?M) = ?g ((1 + i) mod ?M)"
        using rot i by blast
      moreover have "(1 + i) mod ?M = 0" using True M0 by simp
      ultimately have "?buf' ! ((unat h' + i) mod ?M) = None" by simp
      moreover have "\<not> i < length (tl bs)" using True k by simp
      ultimately show ?thesis by simp
    next
      case False
      then have n: "(1 + i) mod ?M = i + 1" using i by simp
      have "?buf' ! ((unat h' + i) mod ?M) = ?g ((1 + i) mod ?M)"
        using rot i by blast
      also have "\<dots> = ?g (i + 1)" by (simp only: n)
      also have "\<dots> = (if i + 1 < ?k then Some (bs ! (i + 1)) else None)" by simp
      finally show ?thesis by (auto simp: nth_tl)
    qed
  qed
  moreover have "unat (cb_tail r) = (unat h' + (length (tl bs) - 1)) mod ?M"
  proof -
    have "(unat h' + (?k - 2)) mod ?M = (?h + 1 + (?k - 2)) mod ?M"
      unfolding h' by (simp add: mod_add_left_eq)
    also have "?h + 1 + (?k - 2) = ?h + (?k - 1)" using two by simp
    finally have "unat (cb_tail r) = (unat h' + (?k - 2)) mod ?M" using t by simp
    moreover have "?k - 2 = length (tl bs) - 1" by simp
    ultimately show ?thesis by (simp only:)
  qed
  moreover have k': "1 \<le> length (tl bs)" "length (tl bs) \<le> ?M" "length (tl bs) = ?k - 1"
    using two k by simp_all
  moreover have "unat h' < ?M" using h' M0 by simp
  ultimately have "ring_rel (r\<lparr>cb_buffer := Some ?buf', cb_head := h', cb_size := cb_size r - 1\<rparr>) (tl bs)"
    unfolding ring_rel_def using buf M sz by (simp del: length_tl)
  then show ?thesis using eq by simp
qed

lemma GetTailDataBlock_ring:
  assumes rel: "ring_rel r bs"
  shows "GetTailDataBlock BlockSize r = Inr r"
proof -
  have "slot_deref r (cb_tail r) = Inr (last bs)" using rel by (rule slot_deref_tail)
  then show ?thesis
    by (auto simp: GetTailDataBlock_def slot_deref_def bindE_def split: sum.splits option.splits)
qed

lemma CircularBuffer_IsEmpty_ring:
  assumes rel: "ring_rel r bs"
  shows "CircularBuffer_IsEmpty r =
           (if length bs = 1
            then (if cb_head r = 0 then Inr (Block_IsEmpty (hd bs)) else Inl NullDeref)
            else Inr False)"
proof -
  let ?M = "unat (cb_max_size r)" and ?h = "unat (cb_head r)" and ?k = "length bs"
  from rel obtain buf where buf: "cb_buffer r = Some buf" "length buf = ?M"
    and k: "unat (cb_size r) = ?k" "?k \<le> ?M"
    and h: "?h < ?M" and M: "16 \<le> ?M"
    and slots: "\<forall>i < ?M. buf ! ((?h + i) mod ?M) = (if i < ?k then Some (bs ! i) else None)"
    by (auto simp: ring_rel_def)
  have sz: "cb_size r = 1 \<longleftrightarrow> ?k = 1"
    using k by (metis unat_1 word_unat_eq_iff)
  show ?thesis
  proof (cases "?k = 1")
    case False
    then show ?thesis using sz by (simp add: CircularBuffer_IsEmpty_def)
  next
    case True
    show ?thesis
    proof (cases "cb_head r = 0")
      case h0: True
      then have "slot_deref r 0 = Inr (hd bs)" using slot_deref_head [OF rel] by simp
      then show ?thesis using True sz h0 by (simp add: CircularBuffer_IsEmpty_def)
    next
      case h1: False
      then have hpos: "0 < ?h" by (simp add: unat_gt_0)
      have "(?h + (?M - ?h)) mod ?M = 0" using h by simp
      moreover have "?M - ?h < ?M" "\<not> ?M - ?h < ?k" using h hpos True by simp_all
      ultimately have "buf ! 0 = None" using slots by (metis (full_types))
      then have "slot_deref r 0 = Inl NullDeref"
        using buf M by (simp add: slot_deref_def slot_ptr_def arr_read_def)
      then show ?thesis using True sz h1 by (simp add: CircularBuffer_IsEmpty_def)
    qed
  qed
qed

declare Expand_loop.simps [simp del]

lemma ring_dist_0:
  fixes M :: nat
  assumes "i < M" "t < M" "(t + M - i) mod M = 0"
  shows "i = t"
proof (cases "i \<le> t")
  case True
  then have "t + M - i = (t - i) + M" using assms by simp
  then have "(t + M - i) mod M = (t - i) mod M" by simp
  also have "\<dots> = t - i" using assms by simp
  finally show ?thesis using assms True by simp
next
  case False
  then have "t + M - i < M" "0 < t + M - i" using assms by simp_all
  then show ?thesis using assms by simp
qed

lemma ring_dist_Suc:
  fixes M :: nat
  assumes "i < M" "t < M" "(t + M - i) mod M = Suc m"
  shows "(t + M - (i + 1) mod M) mod M = m"
proof (cases "i + 1 < M")
  case True
  show ?thesis
  proof (cases "i \<le> t")
    case le: True
    then have "t + M - i = (t - i) + M" using assms by simp
    then have "(t + M - i) mod M = (t - i) mod M" by simp
    also have "\<dots> = t - i" using assms by simp
    finally have d: "t - i = Suc m" using assms by simp
    then have "t + M - (i + 1) = m + M" by simp
    then have "(t + M - (i + 1)) mod M = (m + M) mod M" by (simp only:)
    also have "\<dots> = m" using d assms by simp
    finally show ?thesis using True by simp
  next
    case False
    then have "t + M - i < M" using assms by simp
    then have lt: "t + M - i < M" and e: "t + M - i = Suc m" using assms by simp_all
    from e have "t + M - (i + 1) = m" by simp
    moreover from lt e have "m < M" by simp
    ultimately show ?thesis using True by simp
  qed
next
  case False
  then have "i + 1 = M" using assms by simp
  then have i: "i = M - 1" "(i + 1) mod M = 0" by simp_all
  have "t + M - i = t + 1" using i assms by simp
  then have tm: "(t + 1) mod M = Suc m" using assms by simp
  have "t + 1 < M"
  proof (rule ccontr)
    assume "\<not> t + 1 < M"
    then have "t + 1 = M" using assms(2) by simp
    then have "(t + 1) mod M = 0" by simp
    then show False using tm by simp
  qed
  then have "t = m" using tm by simp
  then show ?thesis using i assms by simp
qed

lemma ring_dist_len:
  fixes M :: nat
  assumes "h < M" "d < M"
  shows "((h + d) mod M + M - h) mod M = d"
proof (cases "h + d < M")
  case True
  then have "(h + d) mod M + M - h = d + M" by simp
  then show ?thesis using assms by simp
next
  case False
  then have "(h + d) mod M = h + d - M" using assms by (simp add: mod_if)
  then have "(h + d) mod M + M - h = d" using False by simp
  then show ?thesis using assms by simp
qed

lemma Expand_loop_ring:
  assumes "length old = unat max_size" "unat tail < unat max_size" "unat i < unat max_size"
    and "(unat tail + unat max_size - unat i) mod unat max_size = n"
    and "unat cnt + n < unat new_size" "length nb = unat new_size"
  shows "\<exists>nb'. Expand_loop old max_size new_size tail i cnt nb = Inr (cnt + word_of_nat n, nb') \<and>
           length nb' = length nb \<and>
           (\<forall>j<n. nb' ! (unat cnt + j) = old ! ((unat i + j) mod unat max_size)) \<and>
           (\<forall>p. p < unat cnt \<or> unat cnt + n \<le> p \<longrightarrow> nb' ! p = nb ! p)"
  using assms
proof (induction n arbitrary: i cnt nb)
  case 0
  have "unat i = unat tail"
    by (rule ring_dist_0 [where M = "unat max_size"]) (use "0.prems" in simp_all)
  then have "i = tail" by (simp add: word_unat_eq_iff)
  then show ?case by (subst Expand_loop.simps) simp
next
  case (Suc m)
  let ?M = "unat max_size"
  have ne: "i \<noteq> tail"
  proof
    assume "i = tail"
    then have "(unat tail + ?M - unat i) mod ?M = 0" using Suc.prems by simp
    then show False using Suc.prems by simp
  qed
  have m0: "max_size \<noteq> 0" using Suc.prems by auto
  have Mlt: "?M < 2 ^ 64" using unsigned_less [of max_size, where 'a = nat] by simp
  have Nlt: "unat new_size < 2 ^ 64" using unsigned_less [of new_size, where 'a = nat] by simp
  have i1: "unat (i + 1) = unat i + 1" using Suc.prems Mlt by (simp add: unat_add1_small)
  have i': "unat ((i + 1) mod max_size) = (unat i + 1) mod ?M"
    by (simp add: unat_mod i1)
  have c1: "unat (cnt + 1) = unat cnt + 1" using Suc.prems Nlt by (simp add: unat_add1_small)
  have clt: "cnt < new_size" "unat cnt < length nb"
    using Suc.prems by (simp_all add: word_less_nat_alt)
  let ?nb1 = "nb[unat cnt := old ! unat i]"
  have step: "Expand_loop old max_size new_size tail i cnt nb =
              Expand_loop old max_size new_size tail ((i + 1) mod max_size) (cnt + 1) ?nb1"
    using ne m0 clt Suc.prems by (subst Expand_loop.simps) (simp add: arr_read_def)
  have "\<exists>nb'. Expand_loop old max_size new_size tail ((i + 1) mod max_size) (cnt + 1) ?nb1
            = Inr (cnt + 1 + word_of_nat m, nb') \<and>
           length nb' = length ?nb1 \<and>
           (\<forall>j<m. nb' ! (unat (cnt + 1) + j) = old ! ((unat ((i + 1) mod max_size) + j) mod ?M)) \<and>
           (\<forall>p. p < unat (cnt + 1) \<or> unat (cnt + 1) + m \<le> p \<longrightarrow> nb' ! p = ?nb1 ! p)"
  proof (rule Suc.IH)
    show "length old = ?M" "unat tail < ?M" using Suc.prems by simp_all
    show "unat ((i + 1) mod max_size) < ?M" using i' Suc.prems by simp
    show "(unat tail + ?M - unat ((i + 1) mod max_size)) mod ?M = m"
      unfolding i' using Suc.prems by (intro ring_dist_Suc) simp_all
    show "unat (cnt + 1) + m < unat new_size" using c1 Suc.prems by simp
    show "length ?nb1 = unat new_size" using Suc.prems by simp
  qed
  then obtain nb' where res: "Expand_loop old max_size new_size tail ((i + 1) mod max_size) (cnt + 1) ?nb1
            = Inr (cnt + 1 + word_of_nat m, nb')"
    and len: "length nb' = length nb"
    and moved: "\<forall>j<m. nb' ! (unat cnt + 1 + j) = old ! (((unat i + 1) mod ?M + j) mod ?M)"
    and kept: "\<forall>p. p < unat cnt + 1 \<or> unat cnt + 1 + m \<le> p \<longrightarrow> nb' ! p = ?nb1 ! p"
    unfolding c1 i' by auto
  have "Expand_loop old max_size new_size tail i cnt nb = Inr (cnt + word_of_nat (Suc m), nb')"
    using step res by (simp add: add.assoc)
  moreover have "\<forall>j<Suc m. nb' ! (unat cnt + j) = old ! ((unat i + j) mod ?M)"
  proof (intro allI impI)
    fix j assume j: "j < Suc m"
    show "nb' ! (unat cnt + j) = old ! ((unat i + j) mod ?M)"
    proof (cases j)
      case 0
      have "nb' ! unat cnt = ?nb1 ! unat cnt" using kept by simp
      then show ?thesis using 0 clt Suc.prems by simp
    next
      case (Suc j')
      then have "j' < m" using j by simp
      then have "nb' ! (unat cnt + 1 + j') = old ! (((unat i + 1) mod ?M + j') mod ?M)"
        using moved by blast
      moreover have "((unat i + 1) mod ?M + j') mod ?M = (unat i + j) mod ?M"
        using Suc by (simp add: mod_add_left_eq)
      ultimately show ?thesis using Suc by simp
    qed
  qed
  moreover have "\<forall>p. p < unat cnt \<or> unat cnt + Suc m \<le> p \<longrightarrow> nb' ! p = nb ! p"
  proof (intro allI impI)
    fix p assume p: "p < unat cnt \<or> unat cnt + Suc m \<le> p"
    then have "nb' ! p = ?nb1 ! p" using kept by auto
    moreover have "p \<noteq> unat cnt" using p by auto
    ultimately show "nb' ! p = nb ! p" by simp
  qed
  ultimately show ?case using len by blast
qed

lemma ExpandBuffer_ring:
  assumes rel: "ring_rel r bs" and small: "2 * unat (cb_max_size r) < 2 ^ 64"
  shows "\<exists>r'. ExpandBuffer r = Inr r' \<and> ring_rel r' bs \<and>
           unat (cb_max_size r') = 2 * unat (cb_max_size r) \<and> cb_size r' = cb_size r"
proof -
  let ?M = "unat (cb_max_size r)" and ?h = "unat (cb_head r)" and ?k = "length bs"
  from rel obtain buf where buf: "cb_buffer r = Some buf" "length buf = ?M"
    and k: "unat (cb_size r) = ?k" "1 \<le> ?k" "?k \<le> ?M"
    and h: "?h < ?M" and M: "16 \<le> ?M"
    and t: "unat (cb_tail r) = (?h + (?k - 1)) mod ?M"
    and slots: "\<forall>i < ?M. buf ! ((?h + i) mod ?M) = (if i < ?k then Some (bs ! i) else None)"
    by (auto simp: ring_rel_def)
  define new_size where "new_size = cb_max_size r * 2"
  have N: "unat new_size = 2 * ?M"
  proof -
    have "unat (cb_max_size r) * unat (2 :: size_t) < 2 ^ LENGTH(64)" using small by simp
    then have "unat (cb_max_size r * 2) = unat (cb_max_size r) * unat (2 :: size_t)"
      by (simp only: unat_mult_lem)
    then show ?thesis by (simp add: new_size_def)
  qed
  have tlt: "unat (cb_tail r) < ?M" using t h by simp
  have dist: "(unat (cb_tail r) + ?M - ?h) mod ?M = ?k - 1"
    unfolding t using h k by (intro ring_dist_len) simp_all
  have "\<exists>nb'. Expand_loop buf (cb_max_size r) new_size (cb_tail r) (cb_head r) 0
                 (replicate (unat new_size) None) = Inr (0 + word_of_nat (?k - 1), nb') \<and>
           length nb' = length (replicate (unat new_size) (None :: Block option)) \<and>
           (\<forall>j<?k - 1. nb' ! (unat (0 :: size_t) + j) = buf ! ((?h + j) mod ?M)) \<and>
           (\<forall>p. p < unat (0 :: size_t) \<or> unat (0 :: size_t) + (?k - 1) \<le> p \<longrightarrow>
                nb' ! p = replicate (unat new_size) (None :: Block option) ! p)"
    using buf(2) tlt h dist
  proof (rule Expand_loop_ring)
    show "unat (0 :: size_t) + (?k - 1) < unat new_size" using N k by simp
    show "length (replicate (unat new_size) (None :: Block option)) = unat new_size" by simp
  qed
  then obtain nb' where loop: "Expand_loop buf (cb_max_size r) new_size (cb_tail r) (cb_head r) 0
                 (replicate (unat new_size) None) = Inr (word_of_nat (?k - 1), nb')"
    and len: "length nb' = 2 * ?M"
    and moved: "\<forall>j<?k - 1. nb' ! j = buf ! ((?h + j) mod ?M)"
    and kept: "\<forall>p. ?k - 1 \<le> p \<longrightarrow> nb' ! p = replicate (2 * ?M) (None :: Block option) ! p"
    using N by auto
  have "unat (word_of_nat (?k - 1) :: size_t) = (?k - 1) mod 2 ^ LENGTH(64)"
    by (rule unat_of_nat)
  moreover have "(?k - 1) mod 2 ^ LENGTH(64) = ?k - 1" using k small by simp
  ultimately have cnt: "unat (word_of_nat (?k - 1) :: size_t) = ?k - 1" by (simp only:)
  have cs: "cb_size r \<noteq> 0" using k by auto
  have sz: "unat (cb_size r - 1) = ?k - 1"
    using unat_minus_one [OF cs] k by simp
  let ?nb2 = "nb'[?k - 1 := buf ! unat (cb_tail r)]"
  let ?r' = "r\<lparr>cb_head := 0, cb_tail := cb_size r - 1, cb_buffer := Some ?nb2,
               cb_max_size := new_size\<rparr>"
  have eq: "ExpandBuffer r = Inr ?r'"
    using buf loop tlt len cnt k
    by (simp add: ExpandBuffer_def Let_def new_size_def [symmetric] arr_read_def arr_write_def)
  have "\<forall>i < 2 * ?M. ?nb2 ! i = (if i < ?k then Some (bs ! i) else None)"
  proof (intro allI impI)
    fix i assume i: "i < 2 * ?M"
    consider "i < ?k - 1" | "i = ?k - 1" | "?k \<le> i" by linarith
    then show "?nb2 ! i = (if i < ?k then Some (bs ! i) else None)"
    proof cases
      case 1
      then have "?nb2 ! i = buf ! ((?h + i) mod ?M)" using moved by simp
      also have "\<dots> = Some (bs ! i)" using slots 1 k by simp
      finally show ?thesis using 1 by simp
    next
      case 2
      then have "?nb2 ! i = buf ! ((?h + (?k - 1)) mod ?M)" using len k t by simp
      also have "\<dots> = Some (bs ! (?k - 1))"
      proof -
        have "?k - 1 < ?M" "?k - 1 < ?k" using k by simp_all
        then show ?thesis using slots by (metis (full_types))
      qed
      finally show ?thesis using 2 k by simp
    next
      case 3
      then have "?nb2 ! i = nb' ! i" using k by simp
      also have "\<dots> = None" using kept 3 i by simp
      finally show ?thesis using 3 by simp
    qed
  qed
  then have "ring_rel ?r' bs"
    unfolding ring_rel_def using N len k M sz by simp
  then show ?thesis using eq N by simp
qed

section \<open>Deque: block lists\<close>

lemma blocks_elems_snoc: "blocks_elems (bs @ [b]) = blocks_elems bs @ blk_elems b"
  by (simp add: blocks_elems_def)

lemma blocks_elems_Cons: "blocks_elems (b # bs) = blk_elems b @ blocks_elems bs"
  by (simp add: blocks_elems_def)

lemma update_last: "bs \<noteq> [] \<Longrightarrow> bs[length bs - 1 := b] = butlast bs @ [b]"
  by (induction bs rule: rev_induct) simp_all

lemma update_first: "bs \<noteq> [] \<Longrightarrow> bs[0 := b] = b # tl bs"
  by (cases bs) simp_all

lemma blocks_elems_last: "bs \<noteq> [] \<Longrightarrow> blocks_elems bs = blocks_elems (butlast bs) @ blk_elems (last bs)"
  by (induction bs rule: rev_induct) (simp_all add: blocks_elems_def)

lemma blocks_elems_first: "bs \<noteq> [] \<Longrightarrow> blocks_elems bs = blk_elems (hd bs) @ blocks_elems (tl bs)"
  by (cases bs) (simp_all add: blocks_elems_def)

lemma blocks_ok_nth: "blocks_ok bs \<Longrightarrow> j < length bs \<Longrightarrow> blk_ok (bs ! j)"
  by (simp add: blocks_ok_def)

lemma blocks_ok_last:
  assumes "blocks_ok bs" "bs \<noteq> []"
  shows "blk_ok (last bs)" "2 \<le> length bs \<Longrightarrow> blk_left_aligned (last bs)"
  using assms by (simp_all add: blocks_ok_def last_conv_nth)

lemma blocks_ok_hd:
  assumes "blocks_ok bs" "bs \<noteq> []"
  shows "blk_ok (hd bs)" "2 \<le> length bs \<Longrightarrow> blk_right_closed (hd bs)"
  using assms by (simp_all add: blocks_ok_def hd_conv_nth)

lemma blocks_ok_update_last:
  assumes ok: "blocks_ok bs" and ne: "bs \<noteq> []" and b: "blk_ok b"
    and la: "2 \<le> length bs \<Longrightarrow> blk_left_aligned b"
  shows "blocks_ok (bs[length bs - 1 := b])"
  unfolding blocks_ok_def
proof (intro allI impI)
  fix j assume j: "j < length (bs[length bs - 1 := b])"
  show "blk_ok (bs[length bs - 1 := b] ! j) \<and>
        (j + 1 < length (bs[length bs - 1 := b]) \<longrightarrow> blk_right_closed (bs[length bs - 1 := b] ! j)) \<and>
        (0 < j \<longrightarrow> blk_left_aligned (bs[length bs - 1 := b] ! j))"
  proof (cases "j = length bs - 1")
    case True
    then show ?thesis using b la j by auto
  next
    case False
    then show ?thesis using ok j by (simp add: blocks_ok_def)
  qed
qed

lemma blocks_ok_update_first:
  assumes ok: "blocks_ok bs" and ne: "bs \<noteq> []" and b: "blk_ok b"
    and rc: "2 \<le> length bs \<Longrightarrow> blk_right_closed b"
  shows "blocks_ok (bs[0 := b])"
  unfolding blocks_ok_def
proof (intro allI impI)
  fix j assume j: "j < length (bs[0 := b])"
  show "blk_ok (bs[0 := b] ! j) \<and>
        (j + 1 < length (bs[0 := b]) \<longrightarrow> blk_right_closed (bs[0 := b] ! j)) \<and>
        (0 < j \<longrightarrow> blk_left_aligned (bs[0 := b] ! j))"
  proof (cases "j = 0")
    case True
    then show ?thesis using b rc j by auto
  next
    case False
    then show ?thesis using ok j by (simp add: blocks_ok_def)
  qed
qed

lemma blocks_ok_snoc:
  assumes ok: "blocks_ok bs" and ne: "bs \<noteq> []" and rc: "blk_right_closed (last bs)"
    and b: "blk_ok b" "blk_left_aligned b"
  shows "blocks_ok (bs @ [b])"
  unfolding blocks_ok_def
proof (intro allI impI)
  fix j assume j: "j < length (bs @ [b])"
  show "blk_ok ((bs @ [b]) ! j) \<and>
        (j + 1 < length (bs @ [b]) \<longrightarrow> blk_right_closed ((bs @ [b]) ! j)) \<and>
        (0 < j \<longrightarrow> blk_left_aligned ((bs @ [b]) ! j))"
  proof (cases "j < length bs")
    case True
    show ?thesis
    proof (cases "j + 1 < length bs")
      case t: True
      then show ?thesis using ok True by (simp add: blocks_ok_def nth_append)
    next
      case False
      then have "j = length bs - 1" using True by simp
      then have "bs ! j = last bs" using ne by (simp add: last_conv_nth)
      then have "blk_right_closed (bs ! j)" using rc by simp
      moreover have "blk_ok (bs ! j)" "0 < j \<longrightarrow> blk_left_aligned (bs ! j)"
        using ok True by (simp_all add: blocks_ok_def)
      ultimately show ?thesis using True by (simp add: nth_append)
    qed
  next
    case False
    then have "j = length bs" using j by simp
    then show ?thesis using b by simp
  qed
qed

lemma blocks_ok_Cons:
  assumes ok: "blocks_ok bs" and ne: "bs \<noteq> []" and la: "blk_left_aligned (hd bs)"
    and b: "blk_ok b" "blk_right_closed b"
  shows "blocks_ok (b # bs)"
  unfolding blocks_ok_def
proof (intro allI impI)
  fix j assume j: "j < length (b # bs)"
  show "blk_ok ((b # bs) ! j) \<and>
        (j + 1 < length (b # bs) \<longrightarrow> blk_right_closed ((b # bs) ! j)) \<and>
        (0 < j \<longrightarrow> blk_left_aligned ((b # bs) ! j))"
  proof (cases j)
    case 0
    then show ?thesis using b by simp
  next
    case (Suc i)
    show ?thesis
    proof (cases i)
      case 0
      then have "bs ! i = hd bs" using ne by (simp add: hd_conv_nth)
      then have "blk_left_aligned (bs ! i)" using la by simp
      moreover have "i < length bs" using Suc j by simp
      then have "blk_ok (bs ! i)" "i + 1 < length bs \<longrightarrow> blk_right_closed (bs ! i)"
        using ok by (simp_all add: blocks_ok_def)
      ultimately show ?thesis using Suc by simp
    next
      case (Suc i')
      then show ?thesis using ok \<open>j = Suc i\<close> j by (simp add: blocks_ok_def)
    qed
  qed
qed

lemma blocks_ok_butlast:
  assumes ok: "blocks_ok bs"
  shows "blocks_ok (butlast bs)"
  using assms by (simp add: blocks_ok_def nth_butlast)

lemma blocks_ok_tl:
  assumes ok: "blocks_ok bs"
  shows "blocks_ok (tl bs)"
  unfolding blocks_ok_def
proof (intro allI impI)
  fix j assume j: "j < length (tl bs)"
  then have "Suc j < length bs" by simp
  then show "blk_ok (tl bs ! j) \<and>
        (j + 1 < length (tl bs) \<longrightarrow> blk_right_closed (tl bs ! j)) \<and>
        (0 < j \<longrightarrow> blk_left_aligned (tl bs ! j))"
    using ok by (simp add: blocks_ok_def nth_tl)
qed

lemma CircularBuffer_IsFull_ring:
  assumes "ring_rel r bs"
  shows "CircularBuffer_IsFull r \<longleftrightarrow> length bs = unat (cb_max_size r)"
  using assms by (auto simp: ring_rel_def CircularBuffer_IsFull_def word_unat_eq_iff)

lemma IsTailDataBlockFull_ring:
  assumes "ring_rel r bs"
  shows "IsTailDataBlockFull kBlockSize r = Inr (unat (blk_size (last bs)) = 128)"
  using slot_deref_tail [OF assms] by (simp add: IsTailDataBlockFull_def Block_IsFull_iff)

lemma IsHeadDataBlockFull_ring:
  assumes "ring_rel r bs"
  shows "IsHeadDataBlockFull kBlockSize r = Inr (unat (blk_size (hd bs)) = 128)"
  using slot_deref_head [OF assms] by (simp add: IsHeadDataBlockFull_def Block_IsFull_iff)

lemma TailIsUsedHead_ring:
  assumes "ring_rel r bs" "blk_ok (last bs)"
  shows "TailIsUsedHead kBlockSize r =
           Inr (unat (blk_head (last bs)) + unat (blk_size (last bs)) = 128)"
  using slot_deref_tail [OF assms(1)] Block_IsRightClose_iff [OF assms(2)]
  by (simp add: TailIsUsedHead_def)

lemma IsHeadStartNotShifted_ring:
  assumes "ring_rel r bs"
  shows "IsHeadStartNotShifted r = Inr (blk_head (hd bs) = 0)"
  using slot_deref_head [OF assms] by (simp add: IsHeadStartNotShifted_def Block_IsHeadShifted_def)

lemma ring_rel_nonempty: "ring_rel r bs \<Longrightarrow> bs \<noteq> []"
  by (auto simp: ring_rel_def)

lemma slot_assign_tail:
  assumes rel: "ring_rel r bs"
  shows "\<exists>r'. slot_assign r (cb_tail r) (Some b) = Inr r' \<and> ring_rel r' (bs[length bs - 1 := b]) \<and>
           cb_max_size r' = cb_max_size r"
proof -
  from rel have "length bs - 1 < length bs"
    "unat (cb_tail r) = (unat (cb_head r) + (length bs - 1)) mod unat (cb_max_size r)"
    by (auto simp: ring_rel_def)
  then show ?thesis using slot_assign_ring [OF rel, of "length bs - 1" "cb_tail r" b] by blast
qed

lemma slot_assign_head:
  assumes rel: "ring_rel r bs"
  shows "\<exists>r'. slot_assign r (cb_head r) (Some b) = Inr r' \<and> ring_rel r' (bs[0 := b]) \<and>
           cb_max_size r' = cb_max_size r \<and> cb_head r' = cb_head r"
proof -
  from rel have "0 < length bs" "unat (cb_head r) = (unat (cb_head r) + 0) mod unat (cb_max_size r)"
    by (auto simp: ring_rel_def)
  then show ?thesis using slot_assign_ring [OF rel, of 0 "cb_head r" b] by blast
qed

section \<open>Deque: the four end operations keep the invariant\<close>

lemma Block_new_ok: "blk_ok (Block_new kBlockSize)" "blk_fresh (Block_new kBlockSize)"
  by (simp_all add: blk_ok_def blk_fresh_def Block_new_def)

lemma unat_count_succ:
  fixes c :: size_t
  assumes "unat c \<le> n" "n < 2 ^ 61"
  shows "unat (c + 1) = unat c + 1"
proof -
  have "unat c + 1 < 2 ^ 64" using assms by simp
  then show ?thesis by (rule unat_add1_small)
qed

lemma Deque_PushBack_total:
  assumes inv: "deque_inv n d bs" and n: "n < 2 ^ 61"
  shows "\<exists>d' bs'. Deque_PushBack v d = Inr d' \<and> deque_inv (n + 1) d' bs' \<and>
           blocks_elems bs' = blocks_elems bs @ [v]"
proof -
  let ?r = "dq_data_proxy d" and ?T = "last bs"
  let ?M = "unat (cb_max_size ?r)"
  from inv have rel: "ring_rel ?r bs" and bok: "blocks_ok bs"
    and cnt: "unat (dq_size d) = length (blocks_elems bs)" "length (blocks_elems bs) \<le> n"
    and kn: "length bs \<le> n + 1" and Mn: "?M \<le> 16 + 2 * n"
    by (simp_all add: deque_inv_def)
  have ne: "bs \<noteq> []" using rel by (rule ring_rel_nonempty)
  have Tok: "blk_ok ?T" using bok ne by (rule blocks_ok_last)
  have kM: "length bs \<le> ?M" "16 \<le> ?M" using rel by (auto simp: ring_rel_def)
  have c1: "unat (dq_size d + 1) = length (blocks_elems bs) + 1"
    using unat_count_succ [of "dq_size d" n] cnt n by simp
  let ?rc = "unat (blk_head ?T) + unat (blk_size ?T) = 128"
  let ?full = "unat (blk_size ?T) = 128"
  have bnd: "unat (blk_head ?T) + unat (blk_size ?T) \<le> 128" using Tok by (simp add: blk_ok_def)
  show ?thesis
  proof (cases ?rc)
    case False
    then have nfull: "\<not> ?full" using bnd by simp
    have grow: "(if CircularBuffer_IsFull ?r then IsTailDataBlockFull kBlockSize ?r else Inr False)
                 = Inr False"
      using nfull by (simp add: IsTailDataBlockFull_ring [OF rel])
    from False bnd have room: "unat (blk_head ?T) + unat (blk_size ?T) < 128" by simp
    from Block_PushBack_ok [OF Tok room, of v] obtain T' where
      T': "Block_PushBack kBlockSize v ?T = Inr T'" "blk_ok T'" "\<not> blk_fresh T'"
        "blk_elems T' = blk_elems ?T @ [v]" "blk_head T' = blk_head ?T"
      by blast
    from slot_assign_tail [OF rel, of T'] obtain r4 where
      r4: "slot_assign ?r (cb_tail ?r) (Some T') = Inr r4" "ring_rel r4 (bs[length bs - 1 := T'])"
        "cb_max_size r4 = cb_max_size ?r"
      by blast
    define d' where "d' = \<lparr>dq_data_proxy = r4, dq_size = dq_size d + 1\<rparr>"
    have run: "Deque_PushBack v d = Inr d'"
      unfolding d'_def using False nfull
      by (simp add: Deque_PushBack_def Let_def grow IsTailDataBlockFull_ring [OF rel]
          TailIsUsedHead_ring [OF rel Tok] GetTailDataBlock_ring [OF rel] slot_deref_tail [OF rel]
          T' r4)
    note d' = d'_def
    let ?bs' = "bs[length bs - 1 := T']"
    have la: "2 \<le> length bs \<Longrightarrow> blk_left_aligned T'"
      using blocks_ok_last(2) [OF bok ne] T' by (simp add: blk_left_aligned_def)
    have "blocks_ok ?bs'" using bok ne T'(2) la by (rule blocks_ok_update_last)
    moreover have el: "blocks_elems ?bs' = blocks_elems bs @ [v]"
    proof -
      have "?bs' = butlast bs @ [T']" using ne by (rule update_last)
      then have "blocks_elems ?bs' = blocks_elems (butlast bs) @ blk_elems T'"
        by (simp only: blocks_elems_snoc)
      then show ?thesis using T'(4) blocks_elems_last [OF ne] by simp
    qed
    ultimately have "deque_inv (n + 1) d' ?bs'"
      using r4 c1 cnt kn Mn by (simp add: deque_inv_def d')
    then show ?thesis using run el by blast
  next
    case True
    let ?grow = "length bs = ?M \<and> ?full"
    have grow: "(if CircularBuffer_IsFull ?r then IsTailDataBlockFull kBlockSize ?r else Inr False)
                 = Inr ?grow"
      by (simp add: IsTailDataBlockFull_ring [OF rel] CircularBuffer_IsFull_ring [OF rel])
    have "\<exists>r1. (if ?grow then ExpandBuffer ?r else Inr ?r) = Inr r1 \<and> ring_rel r1 bs \<and>
            length bs < unat (cb_max_size r1) \<and> unat (cb_max_size r1) \<le> 16 + 2 * (n + 1)"
    proof (cases ?grow)
      case g: True
      have "2 * ?M < 2 ^ 64" using Mn n by simp
      from ExpandBuffer_ring [OF rel this] obtain r1 where
        "ExpandBuffer ?r = Inr r1" "ring_rel r1 bs" "unat (cb_max_size r1) = 2 * ?M"
        by blast
      then show ?thesis using g kM kn by auto
    next
      case g: False
      have "length bs \<noteq> ?M"
      proof
        assume full_ring: "length bs = ?M"
        then have "2 \<le> length bs" using kM by simp
        then have "blk_left_aligned ?T" using blocks_ok_last(2) [OF bok ne] by simp
        then have "unat (blk_head ?T) = 0" by (simp add: blk_left_aligned_def)
        with True have ?full by simp
        with g full_ring show False by simp
      qed
      then show ?thesis using g kM rel Mn by auto
    qed
    then obtain r1 where r1: "(if ?grow then ExpandBuffer ?r else Inr ?r) = Inr r1"
      "ring_rel r1 bs" "length bs < unat (cb_max_size r1)"
      "unat (cb_max_size r1) \<le> 16 + 2 * (n + 1)"
      by blast
    have add: "(if ?full then Inr True else TailIsUsedHead kBlockSize r1) = Inr True"
      using True by (simp add: TailIsUsedHead_ring [OF r1(2) Tok])
    let ?fresh = "Block_new kBlockSize"
    from AddTailDataBlock_ring [OF r1(2) r1(3), of kBlockSize] obtain r2 where
      r2: "AddTailDataBlock kBlockSize r1 = Inr r2" "ring_rel r2 (bs @ [?fresh])"
        "cb_max_size r2 = cb_max_size r1"
      by blast
    have room: "unat (blk_head ?fresh) + unat (blk_size ?fresh) < 128"
      by (simp add: Block_new_def)
    from Block_PushBack_ok [OF Block_new_ok(1) room, of v] obtain T' where
      T': "Block_PushBack kBlockSize v ?fresh = Inr T'" "blk_ok T'" "\<not> blk_fresh T'"
        "blk_elems T' = blk_elems ?fresh @ [v]" "blk_head T' = blk_head ?fresh"
      by blast
    from slot_assign_tail [OF r2(2), of T'] obtain r4 where
      r4: "slot_assign r2 (cb_tail r2) (Some T') = Inr r4"
        "ring_rel r4 ((bs @ [?fresh])[length (bs @ [?fresh]) - 1 := T'])"
        "cb_max_size r4 = cb_max_size r2"
      by blast
    define d' where "d' = \<lparr>dq_data_proxy = r4, dq_size = dq_size d + 1\<rparr>"
    have run: "Deque_PushBack v d = Inr d'"
      unfolding d'_def using slot_deref_tail [OF r2(2)]
      by (simp add: Deque_PushBack_def Let_def grow r1(1) IsTailDataBlockFull_ring [OF r1(2)]
          add r2(1) GetTailDataBlock_ring [OF r2(2)] T' r4)
    note d' = d'_def
    let ?bs' = "bs @ [T']"
    have rel': "ring_rel r4 ?bs'" using r4(2) by simp
    have "blk_right_closed ?T" using True by (simp add: blk_right_closed_def)
    moreover have "blk_left_aligned T'" using T' by (simp add: blk_left_aligned_def Block_new_def)
    ultimately have "blocks_ok ?bs'" using bok ne T'(2) by (intro blocks_ok_snoc) simp_all
    moreover have el: "blocks_elems ?bs' = blocks_elems bs @ [v]"
      using T'(4) by (simp add: blocks_elems_snoc blk_elems_def Block_new_def)
    ultimately have "deque_inv (n + 1) d' ?bs'"
      using rel' r4(3) r2(3) r1(4) c1 cnt kn by (simp add: deque_inv_def d')
    then show ?thesis using run el by blast
  qed
qed

lemma Deque_PushBack_inv:
  assumes inv: "deque_inv n d bs" and n: "n < 2 ^ 61" and run: "Deque_PushBack v d = Inr d'"
  shows "\<exists>bs'. deque_inv (n + 1) d' bs' \<and> blocks_elems bs' = blocks_elems bs @ [v]"
  using Deque_PushBack_total [OF inv n, of v] run by auto

lemma deque_inv_mono: "deque_inv n d bs \<Longrightarrow> n \<le> m \<Longrightarrow> deque_inv m d bs"
  by (auto simp: deque_inv_def)

lemma blocks_elems_single: "length bs = 1 \<Longrightarrow> blocks_elems bs = blk_elems (hd bs)"
  by (cases bs) (simp_all add: blocks_elems_def)

lemma blk_elems_empty: "blk_size b = 0 \<Longrightarrow> blk_elems b = []"
  by (simp add: blk_elems_def)

lemma Deque_PushFront_inv:
  assumes inv: "deque_inv n d bs" and n: "n < 2 ^ 61" and run: "Deque_PushFront v d = Inr d'"
  shows "\<exists>bs'. deque_inv (n + 1) d' bs' \<and> blocks_elems bs' = v # blocks_elems bs"
proof -
  let ?r = "dq_data_proxy d" and ?H = "hd bs"
  let ?M = "unat (cb_max_size ?r)"
  from inv have rel: "ring_rel ?r bs" and bok: "blocks_ok bs"
    and cnt: "unat (dq_size d) = length (blocks_elems bs)" "length (blocks_elems bs) \<le> n"
    and kn: "length bs \<le> n + 1" and Mn: "?M \<le> 16 + 2 * n"
    by (simp_all add: deque_inv_def)
  have ne: "bs \<noteq> []" using rel by (rule ring_rel_nonempty)
  have Hok: "blk_ok ?H" using bok ne by (rule blocks_ok_hd)
  have kM: "length bs \<le> ?M" "16 \<le> ?M" using rel by (auto simp: ring_rel_def)
  have c1: "unat (dq_size d + 1) = length (blocks_elems bs) + 1"
    using unat_count_succ [of "dq_size d" n] cnt n by simp
  let ?full = "unat (blk_size ?H) = 128"
  define g where "g \<longleftrightarrow> length bs = ?M \<and> ?full"
  have bnd: "unat (blk_head ?H) + unat (blk_size ?H) \<le> 128" using Hok by (simp add: blk_ok_def)
  have grow: "(if CircularBuffer_IsFull ?r then IsHeadDataBlockFull kBlockSize ?r else Inr False)
               = Inr g"
    by (simp add: g_def IsHeadDataBlockFull_ring [OF rel] CircularBuffer_IsFull_ring [OF rel])
  have "\<exists>r1. (if g then ExpandBuffer ?r else Inr ?r) = Inr r1 \<and> ring_rel r1 bs \<and>
          (g \<longrightarrow> length bs < unat (cb_max_size r1)) \<and> (\<not> g \<longrightarrow> r1 = ?r) \<and>
          unat (cb_max_size r1) \<le> 16 + 2 * (n + 1)"
  proof (cases g)
    case g: True
    have "2 * ?M < 2 ^ 64" using Mn n by simp
    from ExpandBuffer_ring [OF rel this] obtain r1 where
      "ExpandBuffer ?r = Inr r1" "ring_rel r1 bs" "unat (cb_max_size r1) = 2 * ?M"
      by blast
    then show ?thesis using g kM kn by (auto simp: g_def)
  next
    case g: False
    then show ?thesis using rel Mn by auto
  qed
  then obtain r1 where r1: "(if g then ExpandBuffer ?r else Inr ?r) = Inr r1"
    "ring_rel r1 bs" "g \<Longrightarrow> length bs < unat (cb_max_size r1)" "\<not> g \<Longrightarrow> r1 = ?r"
    "unat (cb_max_size r1) \<le> 16 + 2 * (n + 1)"
    by blast
  have emp: "CircularBuffer_IsEmpty r1 =
           (if length bs = 1
            then (if cb_head r1 = 0 then Inr (Block_IsEmpty ?H) else Inl NullDeref)
            else Inr False)"
    using r1(2) by (rule CircularBuffer_IsEmpty_ring)
  have in_place: "\<exists>bs'. deque_inv (n + 1) d' bs' \<and> blocks_elems bs' = v # blocks_elems bs"
    if em: "CircularBuffer_IsEmpty r1 = Inr e" and noadd: "e \<or> blk_head ?H \<noteq> 0"
      and H': "Block_PushFront kBlockSize v ?H = Inr H'" "blk_ok H'"
        "blk_elems H' = v # blk_elems ?H"
        "2 \<le> length bs \<Longrightarrow> blk_right_closed H'"
    for e H'
  proof -
    have add: "(if \<not> e then IsHeadStartNotShifted r1 else Inr False) = Inr False"
      using noadd by (auto simp: IsHeadStartNotShifted_ring [OF r1(2)])
    from slot_assign_head [OF r1(2), of H'] obtain r3 where
      r3: "slot_assign r1 (cb_head r1) (Some H') = Inr r3" "ring_rel r3 (bs[0 := H'])"
        "cb_max_size r3 = cb_max_size r1"
      by blast
    have "Deque_PushFront v d = Inr \<lparr>dq_data_proxy = r3, dq_size = dq_size d + 1\<rparr>"
      by (simp add: Deque_PushFront_def Let_def grow r1(1) em add slot_deref_head [OF r1(2)]
          H'(1) r3)
    with run have d': "d' = \<lparr>dq_data_proxy = r3, dq_size = dq_size d + 1\<rparr>" by simp
    let ?bs' = "bs[0 := H']"
    have "blocks_ok ?bs'" using bok ne H'(2) H'(4) by (rule blocks_ok_update_first)
    moreover have el: "blocks_elems ?bs' = v # blocks_elems bs"
    proof -
      have "?bs' = H' # tl bs" using ne by (rule update_first)
      then have "blocks_elems ?bs' = blk_elems H' @ blocks_elems (tl bs)"
        by (simp only: blocks_elems_Cons)
      then show ?thesis using H'(3) blocks_elems_first [OF ne] by simp
    qed
    ultimately have "deque_inv (n + 1) d' ?bs'"
      using r3 r1(5) c1 cnt kn by (simp add: deque_inv_def d')
    then show ?thesis using el by blast
  qed
  have with_check: "\<exists>bs'. deque_inv (n + 1) d' bs' \<and> blocks_elems bs' = v # blocks_elems bs"
    if em: "CircularBuffer_IsEmpty r1 = Inr False" and nfH: "blk_head ?H = 0 \<Longrightarrow> \<not> blk_fresh ?H"
  proof (cases "blk_head ?H = 0")
    case False
    from Block_PushFront_shift [OF Hok False, of v] obtain H' where
      H': "Block_PushFront kBlockSize v ?H = Inr H'" "blk_ok H'" "blk_elems H' = v # blk_elems ?H"
        "unat (blk_head H') = unat (blk_head ?H) - 1" "unat (blk_size H') = unat (blk_size ?H) + 1"
      by blast
    have hpos: "0 < unat (blk_head ?H)" using False by (simp add: unat_gt_0)
    have "blk_right_closed H'" if "2 \<le> length bs"
      using blocks_ok_hd(2) [OF bok ne that] H'(4,5) hpos by (simp add: blk_right_closed_def)
    then show ?thesis using in_place [OF em _ H'(1,2,3)] False by simp
  next
    case True
    have room: "length bs < unat (cb_max_size r1)"
    proof (cases g)
      case True
      then show ?thesis by (rule r1(3))
    next
      case ng: False
      have "length bs \<noteq> ?M"
      proof
        assume full_ring: "length bs = ?M"
        then have "2 \<le> length bs" using kM by simp
        then have "blk_right_closed ?H" using blocks_ok_hd(2) [OF bok ne] by simp
        then have ?full using True by (simp add: blk_right_closed_def)
        with ng full_ring show False by (simp add: g_def)
      qed
      then show ?thesis using kM r1(4) [OF ng] by simp
    qed
    have add: "(if \<not> False then IsHeadStartNotShifted r1 else Inr False) = Inr True"
      using True by (simp add: IsHeadStartNotShifted_ring [OF r1(2)])
    let ?fresh = "Block_new kBlockSize"
    from AddHeadDataBlock_ring [OF r1(2) room, of kBlockSize] obtain r2 where
      r2: "AddHeadDataBlock kBlockSize r1 = Inr r2" "ring_rel r2 (?fresh # bs)"
        "cb_max_size r2 = cb_max_size r1"
      by blast
    from Block_PushFront_fresh [OF Block_new_ok, of v] obtain H' where
      H': "Block_PushFront kBlockSize v ?fresh = Inr H'" "blk_ok H'" "blk_elems H' = [v]"
        "unat (blk_head H') = 127" "unat (blk_size H') = 1"
      by blast
    from slot_assign_head [OF r2(2), of H'] obtain r3 where
      r3: "slot_assign r2 (cb_head r2) (Some H') = Inr r3" "ring_rel r3 ((?fresh # bs)[0 := H'])"
        "cb_max_size r3 = cb_max_size r2"
      by blast
    have "Deque_PushFront v d = Inr \<lparr>dq_data_proxy = r3, dq_size = dq_size d + 1\<rparr>"
      using slot_deref_head [OF r2(2)] add
      by (simp add: Deque_PushFront_def Let_def grow r1(1) em r2(1) H'(1) r3)
    with run have d': "d' = \<lparr>dq_data_proxy = r3, dq_size = dq_size d + 1\<rparr>" by simp
    let ?bs' = "H' # bs"
    have rel': "ring_rel r3 ?bs'" using r3(2) by simp
    have "blk_left_aligned ?H" using True nfH by (simp add: blk_left_aligned_def)
    moreover have "blk_right_closed H'" using H'(4,5) by (simp add: blk_right_closed_def)
    ultimately have "blocks_ok ?bs'" using bok ne H'(2) by (intro blocks_ok_Cons) simp_all
    moreover have el: "blocks_elems ?bs' = v # blocks_elems bs"
      using H'(3) by (simp add: blocks_elems_Cons)
    ultimately have "deque_inv (n + 1) d' ?bs'"
      using rel' r3(3) r2(3) r1(5) c1 cnt kn by (simp add: deque_inv_def d')
    then show ?thesis using el by blast
  qed
  show ?thesis
  proof (cases "length bs = 1")
    case one: True
    then have ng: "\<not> g" using kM by (simp add: g_def)
    show ?thesis
    proof (cases "cb_head r1 = 0")
      case False
      then have "Deque_PushFront v d = Inl NullDeref"
        using one by (simp add: Deque_PushFront_def Let_def grow r1(1) emp)
      with run show ?thesis by simp
    next
      case h0: True
      show ?thesis
      proof (cases "blk_size ?H = 0")
        case e: True
        have em: "CircularBuffer_IsEmpty r1 = Inr True"
          using one h0 e by (simp add: emp Block_IsEmpty_def)
        have el0: "blk_elems ?H = []" using e by (rule blk_elems_empty)
        show ?thesis
        proof (cases "blk_fresh ?H")
          case True
          from Block_PushFront_fresh [OF Hok True, of v] obtain H' where
            "Block_PushFront kBlockSize v ?H = Inr H'" "blk_ok H'" "blk_elems H' = [v]"
            by blast
          then show ?thesis using in_place [OF em, of H'] one el0 by simp
        next
          case nf: False
          show ?thesis
          proof (cases "blk_head ?H = 0")
            case True
            have "Block_PushFront kBlockSize v ?H = Inl OutOfBounds"
              using Hok nf True e by (rule Block_PushFront_stuck)
            then have "Deque_PushFront v d = Inl OutOfBounds"
              by (simp add: Deque_PushFront_def Let_def grow r1(1) em slot_deref_head [OF r1(2)])
            with run show ?thesis by simp
          next
            case False
            from Block_PushFront_shift [OF Hok False, of v] obtain H' where
              "Block_PushFront kBlockSize v ?H = Inr H'" "blk_ok H'" "blk_elems H' = v # blk_elems ?H"
              by blast
            then show ?thesis using in_place [OF em, of H'] one by simp
          qed
        qed
      next
        case False
        then have "CircularBuffer_IsEmpty r1 = Inr False"
          using one h0 by (simp add: emp Block_IsEmpty_def)
        moreover have "\<not> blk_fresh ?H" using False by (simp add: blk_fresh_def)
        ultimately show ?thesis using with_check by simp
      qed
    qed
  next
    case False
    moreover have "0 < length bs" using ne by simp
    ultimately have two: "2 \<le> length bs" by linarith
    have em: "CircularBuffer_IsEmpty r1 = Inr False" using False by (simp add: emp)
    have "\<not> blk_fresh ?H" if "blk_head ?H = 0"
    proof -
      have "blk_right_closed ?H" using blocks_ok_hd(2) [OF bok ne two] .
      then have "unat (blk_size ?H) = 128" using that by (simp add: blk_right_closed_def)
      then have "blk_size ?H \<noteq> 0" by auto
      then show ?thesis by (simp add: blk_fresh_def)
    qed
    then show ?thesis using with_check [OF em] by simp
  qed
qed

lemma unat_gt_1: "1 < (c :: size_t) \<longleftrightarrow> 1 < unat c"
  by (simp add: word_less_nat_alt)

lemma butlast_update_last:
  assumes "bs \<noteq> []"
  shows "butlast (bs[length bs - 1 := b]) = butlast bs"
proof -
  have "bs[length bs - 1 := b] = butlast bs @ [b]" using assms by (rule update_last)
  then show ?thesis by (simp only: butlast_snoc)
qed

lemma length_one:
  assumes "bs \<noteq> []" "\<not> 2 \<le> length bs"
  shows "length bs = 1"
proof -
  have "0 < length bs" using assms(1) by simp
  then show ?thesis using assms(2) by linarith
qed

lemma tl_update_first: "tl (bs[0 := b]) = tl bs"
  by (cases bs) simp_all

lemma Deque_PopBack_inv:
  assumes inv: "deque_inv n d bs" and nonempty: "blocks_elems bs \<noteq> []"
    and run: "Deque_PopBack d = Inr d'"
  shows "\<exists>bs'. deque_inv (n + 1) d' bs' \<and> blocks_elems bs' = butlast (blocks_elems bs)"
proof -
  let ?r = "dq_data_proxy d" and ?T = "last bs"
  from inv have rel: "ring_rel ?r bs" and bok: "blocks_ok bs"
    and cnt: "unat (dq_size d) = length (blocks_elems bs)" "length (blocks_elems bs) \<le> n"
    and kn: "length bs \<le> n + 1" and Mn: "unat (cb_max_size ?r) \<le> 16 + 2 * n"
    by (simp_all add: deque_inv_def)
  have ne: "bs \<noteq> []" using rel by (rule ring_rel_nonempty)
  have Tok: "blk_ok ?T" using bok ne by (rule blocks_ok_last)
  have split: "blocks_elems bs = blocks_elems (butlast bs) @ blk_elems ?T"
    using ne by (rule blocks_elems_last)
  have c0: "dq_size d \<noteq> 0" using cnt nonempty by auto
  have c1: "unat (dq_size d - 1) = length (blocks_elems bs) - 1"
    using unat_minus_one [OF c0] cnt by simp
  show ?thesis
  proof (cases "blk_size ?T = 0")
    case True
    have "2 \<le> length bs"
    proof (rule ccontr)
      assume "\<not> 2 \<le> length bs"
      with ne have "length bs = 1" by (rule length_one)
      then have "blocks_elems bs = blk_elems ?T"
        using blocks_elems_single [of bs] ne by (simp add: hd_conv_nth last_conv_nth)
      then show False using nonempty True by (simp add: blk_elems_empty)
    qed
    then have "blk_left_aligned ?T" using blocks_ok_last(2) [OF bok ne] by simp
    then have "Block_PopBack ?T = Inl OutOfBounds"
      using Tok True by (intro Block_PopBack_stuck) (simp_all add: blk_left_aligned_def)
    then have "Deque_PopBack d = Inl OutOfBounds"
      by (simp add: Deque_PopBack_def Let_def GetTailDataBlock_ring [OF rel] slot_deref_tail [OF rel])
    with run show ?thesis by simp
  next
    case False
    from Block_PopBack_ok [OF Tok False] obtain T' where
      T': "Block_PopBack ?T = Inr T'" "blk_ok T'" "\<not> blk_fresh T'"
        "blk_elems T' = butlast (blk_elems ?T)" "blk_head T' = blk_head ?T"
        "unat (blk_size T') = unat (blk_size ?T) - 1"
      by blast
    have Tne: "blk_elems ?T \<noteq> []"
      using False length_blk_elems [OF Tok] by (auto simp: unat_0_iff)
    from slot_assign_tail [OF rel, of T'] obtain r2 where
      r2: "slot_assign ?r (cb_tail ?r) (Some T') = Inr r2" "ring_rel r2 (bs[length bs - 1 := T'])"
        "cb_max_size r2 = cb_max_size ?r"
      by blast
    define del where "del \<longleftrightarrow> Block_IsEmpty T' \<and> 1 < dq_size d"
    have step: "Deque_PopBack d =
        bindE (if del then DeleteDataBlockFromTail r2 else Inr r2)
          (\<lambda>r3. Inr \<lparr>dq_data_proxy = r3, dq_size = dq_size d - 1\<rparr>)"
      by (simp add: Deque_PopBack_def Let_def GetTailDataBlock_ring [OF rel] slot_deref_tail [OF rel]
          T'(1) r2(1) del_def)
    show ?thesis
    proof (cases del)
      case True
      have spos: "0 < unat (blk_size ?T)" using False by (simp add: unat_gt_0)
      from True have one: "unat (blk_size ?T) = 1" and many: "1 < length (blocks_elems bs)"
        using T'(6) spos cnt by (auto simp: del_def Block_IsEmpty_iff unat_gt_1)
      have two: "2 \<le> length bs"
      proof (rule ccontr)
        assume "\<not> 2 \<le> length bs"
        with ne have "length bs = 1" by (rule length_one)
        then have "blocks_elems bs = blk_elems ?T"
          using blocks_elems_single [of bs] ne by (simp add: hd_conv_nth last_conv_nth)
        then show False using many one length_blk_elems [OF Tok] by simp
      qed
      then have two': "2 \<le> length (bs[length bs - 1 := T'])" by simp
      from DeleteDataBlockFromTail_ring [OF r2(2) two'] obtain r3 where
        r3: "DeleteDataBlockFromTail r2 = Inr r3" "ring_rel r3 (butlast (bs[length bs - 1 := T']))"
          "cb_max_size r3 = cb_max_size r2"
        by blast
      from run step True r3(1) have d': "d' = \<lparr>dq_data_proxy = r3, dq_size = dq_size d - 1\<rparr>"
        by simp
      let ?bs' = "butlast bs"
      have rel': "ring_rel r3 ?bs'" using r3(2) unfolding butlast_update_last [OF ne] .
      have "blocks_ok ?bs'" using bok by (rule blocks_ok_butlast)
      moreover have el: "blocks_elems ?bs' = butlast (blocks_elems bs)"
      proof -
        have "length (blk_elems ?T) = 1" using one length_blk_elems [OF Tok] by simp
        then obtain x where "blk_elems ?T = [x]" by (cases "blk_elems ?T") auto
        then show ?thesis using split by simp
      qed
      moreover have "length ?bs' \<le> n + 2" using kn by simp
      moreover have "unat (dq_size d') = length (blocks_elems ?bs')"
        "length (blocks_elems ?bs') \<le> n + 1"
        using c1 cnt el by (simp_all add: d')
      ultimately have "deque_inv (n + 1) d' ?bs'"
        using rel' r3(3) r2(3) Mn by (simp add: deque_inv_def d')
      then show ?thesis using el by blast
    next
      case nd: False
      from run step nd have d': "d' = \<lparr>dq_data_proxy = r2, dq_size = dq_size d - 1\<rparr>"
        by simp
      let ?bs' = "bs[length bs - 1 := T']"
      have la: "2 \<le> length bs \<Longrightarrow> blk_left_aligned T'"
        using blocks_ok_last(2) [OF bok ne] T' by (simp add: blk_left_aligned_def)
      have "blocks_ok ?bs'" using bok ne T'(2) la by (rule blocks_ok_update_last)
      moreover have el: "blocks_elems ?bs' = butlast (blocks_elems bs)"
      proof -
        have "?bs' = butlast bs @ [T']" using ne by (rule update_last)
        then have "blocks_elems ?bs' = blocks_elems (butlast bs) @ blk_elems T'"
          by (simp only: blocks_elems_snoc)
        then show ?thesis using T'(4) split Tne by (simp add: butlast_append)
      qed
      ultimately have "deque_inv (n + 1) d' ?bs'"
        using r2 c1 cnt kn Mn by (simp add: deque_inv_def d')
      then show ?thesis using el by blast
    qed
  qed
qed

lemma Deque_PopFront_inv:
  assumes inv: "deque_inv n d bs" and nonempty: "blocks_elems bs \<noteq> []"
    and run: "Deque_PopFront d = Inr d'"
  shows "\<exists>bs'. deque_inv (n + 1) d' bs' \<and> blocks_elems bs' = tl (blocks_elems bs)"
proof -
  let ?r = "dq_data_proxy d" and ?H = "hd bs"
  from inv have rel: "ring_rel ?r bs" and bok: "blocks_ok bs"
    and cnt: "unat (dq_size d) = length (blocks_elems bs)" "length (blocks_elems bs) \<le> n"
    and kn: "length bs \<le> n + 1" and Mn: "unat (cb_max_size ?r) \<le> 16 + 2 * n"
    by (simp_all add: deque_inv_def)
  have ne: "bs \<noteq> []" using rel by (rule ring_rel_nonempty)
  have Hok: "blk_ok ?H" using bok ne by (rule blocks_ok_hd)
  have split: "blocks_elems bs = blk_elems ?H @ blocks_elems (tl bs)"
    using ne by (rule blocks_elems_first)
  have c0: "dq_size d \<noteq> 0" using cnt nonempty by auto
  have c1: "unat (dq_size d - 1) = length (blocks_elems bs) - 1"
    using unat_minus_one [OF c0] cnt by simp
  show ?thesis
  proof (cases "blk_size ?H = 0")
    case True
    have two: "2 \<le> length bs"
    proof (rule ccontr)
      assume "\<not> 2 \<le> length bs"
      with ne have "length bs = 1" by (rule length_one)
      then have "blocks_elems bs = blk_elems ?H" by (rule blocks_elems_single)
      then show False using nonempty True by (simp add: blk_elems_empty)
    qed
    then have "blk_right_closed ?H" using blocks_ok_hd(2) [OF bok ne] by simp
    then have "unat (blk_head ?H) = 128" using True by (simp add: blk_right_closed_def)
    then have "Block_PopFront ?H = Inl OutOfBounds"
      using Hok by (intro Block_PopFront_stuck)
    then have "Deque_PopFront d = Inl OutOfBounds"
      by (simp add: Deque_PopFront_def Let_def slot_deref_head [OF rel])
    with run show ?thesis by simp
  next
    case False
    from Block_PopFront_ok [OF Hok False] obtain H' where
      H': "Block_PopFront ?H = Inr H'" "blk_ok H'" "\<not> blk_fresh H'"
        "blk_elems H' = tl (blk_elems ?H)" "unat (blk_head H') = unat (blk_head ?H) + 1"
        "unat (blk_size H') = unat (blk_size ?H) - 1"
      by blast
    have spos: "0 < unat (blk_size ?H)" using False by (simp add: unat_gt_0)
    have Hne: "blk_elems ?H \<noteq> []"
      using spos length_blk_elems [OF Hok] by auto
    from slot_assign_head [OF rel, of H'] obtain r1 where
      r1: "slot_assign ?r (cb_head ?r) (Some H') = Inr r1" "ring_rel r1 (bs[0 := H'])"
        "cb_max_size r1 = cb_max_size ?r"
      by blast
    define del where "del \<longleftrightarrow> Block_IsEmpty H' \<and> 1 < dq_size d"
    have step: "Deque_PopFront d =
        bindE (if del then DeleteDataBlockFromHead r1 else Inr r1)
          (\<lambda>r2. Inr \<lparr>dq_data_proxy = r2, dq_size = dq_size d - 1\<rparr>)"
      by (simp add: Deque_PopFront_def Let_def slot_deref_head [OF rel] H'(1) r1(1) del_def)
    show ?thesis
    proof (cases del)
      case True
      then have one: "unat (blk_size ?H) = 1" and many: "1 < length (blocks_elems bs)"
        using H'(6) spos cnt by (auto simp: del_def Block_IsEmpty_iff unat_gt_1)
      have two: "2 \<le> length bs"
      proof (rule ccontr)
        assume "\<not> 2 \<le> length bs"
        with ne have "length bs = 1" by (rule length_one)
        then have "blocks_elems bs = blk_elems ?H" by (rule blocks_elems_single)
        then show False using many one length_blk_elems [OF Hok] by simp
      qed
      then have two': "2 \<le> length (bs[0 := H'])" by simp
      from DeleteDataBlockFromHead_ring [OF r1(2) two'] obtain r2 where
        r2: "DeleteDataBlockFromHead r1 = Inr r2" "ring_rel r2 (tl (bs[0 := H']))"
          "cb_max_size r2 = cb_max_size r1"
        by blast
      from run step True r2(1) have d': "d' = \<lparr>dq_data_proxy = r2, dq_size = dq_size d - 1\<rparr>"
        by simp
      let ?bs' = "tl bs"
      have rel': "ring_rel r2 ?bs'" using r2(2) by (simp only: tl_update_first)
      have "blocks_ok ?bs'" using bok by (rule blocks_ok_tl)
      moreover have el: "blocks_elems ?bs' = tl (blocks_elems bs)"
      proof -
        have "length (blk_elems ?H) = 1" using one length_blk_elems [OF Hok] by simp
        then obtain x where "blk_elems ?H = [x]" by (cases "blk_elems ?H") auto
        then show ?thesis using split by simp
      qed
      moreover have "length ?bs' \<le> n + 2" using kn by simp
      moreover have "unat (dq_size d') = length (blocks_elems ?bs')"
        "length (blocks_elems ?bs') \<le> n + 1"
        using c1 cnt el by (simp_all add: d')
      ultimately have "deque_inv (n + 1) d' ?bs'"
        using rel' r2(3) r1(3) Mn by (simp add: deque_inv_def d')
      then show ?thesis using el by blast
    next
      case nd: False
      from run step nd have d': "d' = \<lparr>dq_data_proxy = r1, dq_size = dq_size d - 1\<rparr>"
        by simp
      let ?bs' = "bs[0 := H']"
      have rc: "blk_right_closed H'" if "2 \<le> length bs"
        using blocks_ok_hd(2) [OF bok ne that] H'(5,6) spos by (simp add: blk_right_closed_def)
      have "blocks_ok ?bs'" using bok ne H'(2) rc by (rule blocks_ok_update_first)
      moreover have el: "blocks_elems ?bs' = tl (blocks_elems bs)"
      proof -
        have "?bs' = H' # tl bs" using ne by (rule update_first)
        then have "blocks_elems ?bs' = blk_elems H' @ blocks_elems (tl bs)"
          by (simp only: blocks_elems_Cons)
        then show ?thesis using H'(4) split Hne by simp
      qed
      ultimately have "deque_inv (n + 1) d' ?bs'"
        using r1 c1 cnt kn Mn by (simp add: deque_inv_def d')
      then show ?thesis using el by blast
    qed
  qed
qed

section \<open>Deque: runs and indexed reads\<close>

lemma ring_rel_default: "ring_rel (CircularBuffer_default kBlockSize) [Block_new kBlockSize]"
proof -
  have "(replicate 16 None)[0 := Some (Block_new kBlockSize)] ! (i mod 16) =
          (if i < 1 then Some ([Block_new kBlockSize] ! i) else None)" if "i < 16" for i :: nat
    using that by (cases i) simp_all
  then show ?thesis
    by (simp add: ring_rel_def CircularBuffer_default_def kBufferInitMaxSize_def)
qed

lemma deque_inv_default: "deque_inv 0 Deque_default [Block_new kBlockSize]"
proof -
  have "blocks_ok [Block_new kBlockSize]"
    by (simp add: blocks_ok_def Block_new_ok)
  moreover have "blocks_elems [Block_new kBlockSize] = []"
    by (simp add: blocks_elems_def blk_elems_def Block_new_def)
  ultimately show ?thesis
    using ring_rel_default
    by (simp add: deque_inv_def Deque_default_def CircularBuffer_default_def kBufferInitMaxSize_def)
qed

lemma Deque_apply_inv:
  assumes inv: "deque_inv n d bs" and n: "n < 2 ^ 61"
    and ref: "ref_apply x (blocks_elems bs) = Some xs" and run: "Deque_apply x d = Inr d'"
  shows "\<exists>bs'. deque_inv (n + 1) d' bs' \<and> blocks_elems bs' = xs"
proof (cases x)
  case (PushBack v)
  then show ?thesis using Deque_PushBack_inv [OF inv n, of v d'] ref run by simp
next
  case (PushFront v)
  then show ?thesis using Deque_PushFront_inv [OF inv n, of v d'] ref run by simp
next
  case PopBack
  then have "blocks_elems bs \<noteq> []" "xs = butlast (blocks_elems bs)"
    using ref by (simp_all split: if_splits)
  then show ?thesis using Deque_PopBack_inv [OF inv, of d'] run PopBack by simp
next
  case PopFront
  then have "blocks_elems bs \<noteq> []" "xs = tl (blocks_elems bs)"
    using ref by (simp_all split: if_splits)
  then show ?thesis using Deque_PopFront_inv [OF inv, of d'] run PopFront by simp
qed

lemma Deque_run_inv:
  assumes "deque_inv n d bs" "n + length ops < 2 ^ 61"
    and "ref_run ops (blocks_elems bs) = Some xs" "Deque_run ops d = Inr d'"
  shows "\<exists>bs'. deque_inv (n + length ops) d' bs' \<and> blocks_elems bs' = xs"
  using assms
proof (induction ops arbitrary: n d bs)
  case Nil
  then show ?case by auto
next
  case (Cons x ops)
  from Cons.prems(3) obtain xs1 where xs1: "ref_apply x (blocks_elems bs) = Some xs1"
    "ref_run ops xs1 = Some xs"
    by (auto split: option.splits)
  from Cons.prems(4) obtain d1 where d1: "Deque_apply x d = Inr d1" "Deque_run ops d1 = Inr d'"
    by (auto split: sum.splits)
  have n: "n < 2 ^ 61" using Cons.prems(2) by simp
  from Deque_apply_inv [OF Cons.prems(1) n xs1(1) d1(1)] obtain bs1 where
    bs1: "deque_inv (n + 1) d1 bs1" "blocks_elems bs1 = xs1"
    by blast
  have "\<exists>bs'. deque_inv (n + 1 + length ops) d' bs' \<and> blocks_elems bs' = xs"
    using bs1(1) _ _ d1(2)
  proof (rule Cons.IH)
    show "n + 1 + length ops < 2 ^ 61" using Cons.prems(2) by simp
    show "ref_run ops (blocks_elems bs1) = Some xs" using xs1(2) bs1(2) by simp
  qed
  then show ?case by (simp add: add.commute add.left_commute)
qed

lemma concat_nth_uniform:
  fixes c :: nat
  assumes "0 < c" "\<forall>j < length xss. length (xss ! j) \<le> c"
    and "\<forall>j. j + 1 < length xss \<longrightarrow> length (xss ! j) = c" "i < length (concat xss)"
  shows "i div c < length xss \<and> i mod c < length (xss ! (i div c)) \<and>
         concat xss ! i = xss ! (i div c) ! (i mod c)"
  using assms
proof (induction xss arbitrary: i)
  case Nil
  then show ?case by simp
next
  case (Cons x xs)
  show ?case
  proof (cases "i < length x")
    case True
    have "length x \<le> c" using Cons.prems(2) by auto
    then have "i div c = 0" "i mod c = i" using True by simp_all
    then show ?thesis using True by (simp add: nth_append)
  next
    case False
    then have "xs \<noteq> []" using Cons.prems(4) by auto
    then have lx: "length x = c" using Cons.prems(3) by (cases xs) auto
    let ?i = "i - c"
    have ge: "c \<le> i" using False lx by simp
    have IH: "?i div c < length xs \<and> ?i mod c < length (xs ! (?i div c)) \<and>
         concat xs ! ?i = xs ! (?i div c) ! (?i mod c)"
    proof (rule Cons.IH)
      show "0 < c" by (rule Cons.prems(1))
      show "\<forall>j < length xs. length (xs ! j) \<le> c"
        using Cons.prems(2) by auto
      show "\<forall>j. j + 1 < length xs \<longrightarrow> length (xs ! j) = c"
      proof (intro allI impI)
        fix j assume "j + 1 < length xs"
        then have "Suc j + 1 < length (x # xs)" by simp
        then have "length ((x # xs) ! Suc j) = c" using Cons.prems(3) by blast
        then show "length (xs ! j) = c" by simp
      qed
      show "?i < length (concat xs)" using Cons.prems(4) False lx by simp
    qed
    have d: "i div c = Suc (?i div c)" using ge Cons.prems(1) by (simp add: le_div_geq)
    have m: "i mod c = ?i mod c" using ge by (simp add: le_mod_geq)
    have "concat (x # xs) ! i = concat xs ! ?i" using False lx by (simp add: nth_append)
    then show ?thesis using IH d m by simp
  qed
qed

lemma Deque_index_inv:
  assumes inv: "deque_inv n d bs" and n: "n < 2 ^ 61" and i: "i < length (blocks_elems bs)"
  shows "Deque_index d (word_of_nat i) = Inr (blocks_elems bs ! i)"
proof -
  let ?r = "dq_data_proxy d" and ?H = "hd bs"
  let ?M = "unat (cb_max_size ?r)" and ?h = "unat (cb_head ?r)"
  from inv have rel: "ring_rel ?r bs" and bok: "blocks_ok bs"
    and cnt: "length (blocks_elems bs) \<le> n" and Mn: "?M \<le> 16 + 2 * n"
    by (simp_all add: deque_inv_def)
  have ne: "bs \<noteq> []" using rel by (rule ring_rel_nonempty)
  have Hok: "blk_ok ?H" using bok ne by (rule blocks_ok_hd)
  have hM: "?h < ?M" "16 \<le> ?M" using rel by (auto simp: ring_rel_def)
  define index :: size_t where "index = word_of_nat i"
  have "unat index = i mod 2 ^ LENGTH(64)" unfolding index_def by (rule unat_of_nat)
  moreover have "i mod 2 ^ LENGTH(64) = i" using i cnt n by simp
  ultimately have ui: "unat index = i" by (simp only:)
  let ?s0 = "unat (blk_size ?H)"
  have split: "blocks_elems bs = blk_elems ?H @ blocks_elems (tl bs)"
    using ne by (rule blocks_elems_first)
  have len0: "length (blk_elems ?H) = ?s0" using Hok by (rule length_blk_elems)
  have hd: "slot_deref ?r (cb_head ?r) = Inr ?H" using rel by (rule slot_deref_head)
  show ?thesis
  proof (cases "i < ?s0")
    case True
    then have lt: "index < blk_size ?H" by (simp add: word_less_nat_alt ui)
    have "unat index < ?s0" using True by (simp only: ui)
    with Hok have "Block_Get ?H index = Inr (blk_elems ?H ! unat index)"
      by (rule Block_Get_ok)
    then have "Deque_index d index = Inr (blk_elems ?H ! i)"
      using lt by (simp add: Deque_index_def GetElementByIndex_def locate_element_def hd Let_def ui)
    then show ?thesis using True len0 split by (simp add: index_def nth_append)
  next
    case False
    then have nlt: "\<not> index < blk_size ?H" by (simp add: word_less_nat_alt ui)
    then have le: "blk_size ?H \<le> index" by simp
    define index' where "index' = index - blk_size ?H"
    let ?i' = "i - ?s0"
    have ui': "unat index' = ?i'" unfolding index'_def using unat_sub [OF le] ui by simp
    let ?rest = "map blk_elems (tl bs)"
    have el: "blocks_elems bs ! i = concat ?rest ! ?i'"
      using False len0 split by (simp add: nth_append blocks_elems_def)
    have i': "?i' < length (concat ?rest)"
      using i False len0 split by (simp add: blocks_elems_def)
    have uni: "?i' div 128 < length ?rest \<and> ?i' mod 128 < length (?rest ! (?i' div 128)) \<and>
         concat ?rest ! ?i' = ?rest ! (?i' div 128) ! (?i' mod 128)"
    proof (rule concat_nth_uniform)
      show "(0 :: nat) < 128" by simp
      show "\<forall>j < length ?rest. length (?rest ! j) \<le> 128"
      proof (intro allI impI)
        fix j assume j: "j < length ?rest"
        then have "Suc j < length bs" by simp
        then have "blk_ok (bs ! Suc j)" using bok by (simp add: blocks_ok_def)
        then have "length (blk_elems (bs ! Suc j)) \<le> 128"
          using length_blk_elems [of "bs ! Suc j"] by (simp add: blk_ok_def)
        then show "length (?rest ! j) \<le> 128" using j by (simp add: nth_tl)
      qed
      show "\<forall>j. j + 1 < length ?rest \<longrightarrow> length (?rest ! j) = 128"
      proof (intro allI impI)
        fix j assume j: "j + 1 < length ?rest"
        then have sj: "Suc j + 1 < length bs" by simp
        then have "blk_ok (bs ! Suc j)" "blk_right_closed (bs ! Suc j)" "blk_left_aligned (bs ! Suc j)"
          using bok by (simp_all add: blocks_ok_def)
        then have "length (blk_elems (bs ! Suc j)) = 128"
          using length_blk_elems [of "bs ! Suc j"]
          by (simp add: blk_right_closed_def blk_left_aligned_def)
        then show "length (?rest ! j) = 128" using j by (simp add: nth_tl)
      qed
      show "?i' < length (concat ?rest)" by (rule i')
    qed
    define q where "q = ?i' div 128"
    from uni have uq0: "q < length ?rest"
      and um: "?i' mod 128 < length (?rest ! q)"
      and ue: "concat ?rest ! ?i' = ?rest ! q ! (?i' mod 128)"
      unfolding q_def by blast+
    from uq0 have uq: "q < length (tl bs)" by simp
    from uq have q: "Suc q < length bs" by simp
    have blkq: "?rest ! q = blk_elems (bs ! Suc q)" using uq by (simp add: nth_tl)
    have okq: "blk_ok (bs ! Suc q)" using bok q by (simp add: blocks_ok_def)
    have off: "?i' mod 128 < unat (blk_size (bs ! Suc q))"
      using um unfolding blkq length_blk_elems [OF okq] .
    have res: "blocks_elems bs ! i = blk_elems (bs ! Suc q) ! (?i' mod 128)"
      using el ue unfolding blkq by simp
    have udiv: "unat (index' div kBlockSize) = q"
      by (simp add: unat_div ui' q_def)
    have umod: "unat (index' mod kBlockSize) = ?i' mod 128"
      by (simp add: unat_mod ui')
    have qn: "q \<le> n" using i cnt by (simp add: q_def)
    have Mlt: "?M < 2 ^ 63" using Mn n by simp
    have "unat (cb_head ?r) + unat (index' div kBlockSize) < 2 ^ 64"
      using hM Mlt udiv qn n by simp
    then have u1: "unat (cb_head ?r + index' div kBlockSize) = ?h + q"
      using udiv by (simp add: unat_add_small)
    have "unat (cb_head ?r + index' div kBlockSize) + 1 < 2 ^ 64"
      using u1 hM Mlt qn n by simp
    then have u2: "unat (cb_head ?r + index' div kBlockSize + 1) = ?h + Suc q"
      using u1 by (simp add: unat_add1_small)
    define slot where "slot = (cb_head ?r + index' div kBlockSize + 1) mod cb_max_size ?r"
    have uslot: "unat slot = (?h + Suc q) mod ?M"
      by (simp add: slot_def unat_mod u2)
    have sd: "slot_deref ?r slot = Inr (bs ! Suc q)"
      using rel q uslot by (rule slot_deref_ring)
    have "unat (index' mod kBlockSize) < unat (blk_size (bs ! Suc q))"
      using off by (simp only: umod)
    with okq have "Block_Get (bs ! Suc q) (index' mod kBlockSize) =
            Inr (blk_elems (bs ! Suc q) ! unat (index' mod kBlockSize))"
      by (rule Block_Get_ok)
    moreover have "kBlockSize \<noteq> 0" "cb_max_size ?r \<noteq> 0"
      using hM by (auto simp: kBlockSize_def)
    ultimately have "Deque_index d index = Inr (blk_elems (bs ! Suc q) ! (?i' mod 128))"
      using nlt sd
      by (simp add: Deque_index_def GetElementByIndex_def locate_element_def hd Let_def
          index'_def [symmetric] slot_def [symmetric] umod)
    then show ?thesis using res by (simp add: index_def)
  qed
qed

lemma ring_slot_onto:
  fixes M :: nat
  assumes "i < M" "h < M"
  shows "(h + (i + M - h) mod M) mod M = i"
proof -
  have "(h + (i + M - h) mod M) mod M = (h + (i + M - h)) mod M"
    by (simp add: mod_add_right_eq)
  also have "h + (i + M - h) = i + M" using assms by simp
  finally show ?thesis using assms by simp
qed

lemma ring_rel_consistent:
  assumes rel: "ring_rel r bs"
  shows "ring_consistent r"
proof -
  let ?M = "unat (cb_max_size r)" and ?h = "unat (cb_head r)" and ?k = "length bs"
  from rel obtain buf where buf: "cb_buffer r = Some buf" "length buf = ?M"
    and k: "unat (cb_size r) = ?k" "1 \<le> ?k" "?k \<le> ?M"
    and h: "?h < ?M" and M: "16 \<le> ?M"
    and t: "unat (cb_tail r) = (?h + (?k - 1)) mod ?M"
    and slots: "\<forall>i < ?M. buf ! ((?h + i) mod ?M) = (if i < ?k then Some (bs ! i) else None)"
    by (auto simp: ring_rel_def)
  let ?f = "\<lambda>j. (?h + j) mod ?M"
  have pop: "set (populated_slots r) = {i. i < ?M \<and> buf ! i \<noteq> None}"
    using buf by (auto simp: populated_slots_def)
  have rng: "set (ring_range r) = ?f ` {..<?k}"
    using k by (auto simp: ring_range_def)
  have eq: "{i. i < ?M \<and> buf ! i \<noteq> None} = ?f ` {..<?k}"
  proof (intro set_eqI iffI)
    fix i assume "i \<in> {i. i < ?M \<and> buf ! i \<noteq> None}"
    then have i: "i < ?M" "buf ! i \<noteq> None" by simp_all
    define j where "j = (i + ?M - ?h) mod ?M"
    have j: "j < ?M" "?f j = i" using i h ring_slot_onto [of i ?M ?h] by (simp_all add: j_def)
    then have "buf ! i = (if j < ?k then Some (bs ! j) else None)" using slots by metis
    with i have "j < ?k" by (auto split: if_splits)
    with j show "i \<in> ?f ` {..<?k}" by auto
  next
    fix i assume "i \<in> ?f ` {..<?k}"
    then obtain j where j: "j < ?k" "i = ?f j" by auto
    then have "j < ?M" using k by simp
    then have "buf ! ?f j = Some (bs ! j)" using slots j by simp
    then show "i \<in> {i. i < ?M \<and> buf ! i \<noteq> None}" using j h by simp
  qed
  have inj: "inj_on ?f {..<?k}"
  proof (rule inj_onI)
    fix a b assume "a \<in> {..<?k}" "b \<in> {..<?k}" "?f a = ?f b"
    then show "a = b" using k slot_inj [of a ?M b ?h] by simp
  qed
  have "distinct (populated_slots r)" using buf by (simp add: populated_slots_def)
  then have "length (populated_slots r) = card (set (populated_slots r))"
    by (simp add: distinct_card)
  also have "\<dots> = card (?f ` {..<?k})" using pop eq by simp
  also have "\<dots> = ?k" using inj by (simp add: card_image)
  finally have len: "length (populated_slots r) = unat (cb_size r)" using k by simp
  have kpos: "0 < ?k" using k(2) by linarith
  have ne: "ring_range r \<noteq> []" using k(1) kpos by (simp add: ring_range_def)
  have hd: "hd (ring_range r) = ?h"
    using k(1) kpos h by (simp add: ring_range_def hd_map)
  have last: "last (ring_range r) = unat (cb_tail r)"
    using k(1) kpos t by (simp add: ring_range_def last_map)
  show ?thesis
    unfolding ring_consistent_def using len pop eq rng ne hd last by simp
qed

lemma deque_inv_middle:
  assumes inv: "deque_inv n d bs"
  shows "middle_blocks_full d"
  unfolding middle_blocks_full_def
proof
  let ?r = "dq_data_proxy d"
  let ?M = "unat (cb_max_size ?r)"
  fix j assume "j \<in> set [1 ..< unat (cb_size ?r) - 1]"
  moreover from inv have rel: "ring_rel ?r bs" and bok: "blocks_ok bs"
    by (simp_all add: deque_inv_def)
  moreover have k: "unat (cb_size ?r) = length bs" using rel by (auto simp: ring_rel_def)
  ultimately have j: "0 < j" "j + 1 < length bs" by auto
  have "(unat (cb_head ?r) + j) mod ?M < 2 ^ LENGTH(64)"
    using unsigned_less [of "cb_max_size ?r", where 'a = nat] rel
    by (metis (no_types, lifting) less_trans mod_less_divisor not_less0 ring_rel_def zero_less_iff_neq_zero)
  then have "unat (ring_slot ?r j) = (unat (cb_head ?r) + j) mod ?M"
    by (simp add: ring_slot_def unat_of_nat)
  then have "slot_deref ?r (ring_slot ?r j) = Inr (bs ! j)"
    using rel j by (intro slot_deref_ring) simp_all
  moreover have "blk_ok (bs ! j)" "blk_right_closed (bs ! j)" "blk_left_aligned (bs ! j)"
    using bok j by (simp_all add: blocks_ok_def)
  then have "blk_head (bs ! j) = 0" "unat (blk_size (bs ! j)) = 128"
    by (simp_all add: blk_right_closed_def blk_left_aligned_def)
  then have "blk_head (bs ! j) = 0" "blk_size (bs ! j) = kBlockSize"
    by (simp_all add: word_unat_eq_iff)
  ultimately show "case slot_deref ?r (ring_slot ?r j) of
          Inl e \<Rightarrow> False
        | Inr b \<Rightarrow> blk_size b = kBlockSize \<and> blk_head b = 0"
    by simp
qed

lemma deque_inv_read_all:
  assumes inv: "deque_inv n d bs" and n: "n < 2 ^ 61"
  shows "Deque_read_all d = map Inr (blocks_elems bs)"
proof -
  from inv have cnt: "unat (dq_size d) = length (blocks_elems bs)" by (simp add: deque_inv_def)
  show ?thesis
    unfolding Deque_read_all_def Deque_Size_def cnt
    using Deque_index_inv [OF inv n] by (intro nth_equalityI) simp_all
qed

lemma push_all_total:
  assumes "deque_inv n d bs" "n + length vs < 2 ^ 61"
  shows "\<exists>d' bs'. push_all vs d = Inr d' \<and> deque_inv (n + length vs) d' bs' \<and>
           blocks_elems bs' = blocks_elems bs @ vs"
  using assms
proof (induction vs arbitrary: n d bs)
  case Nil
  then show ?case by auto
next
  case (Cons v vs)
  have n: "n < 2 ^ 61" using Cons.prems(2) by simp
  from Deque_PushBack_total [OF Cons.prems(1) n, of v] obtain d1 bs1 where
    d1: "Deque_PushBack v d = Inr d1" "deque_inv (n + 1) d1 bs1"
      "blocks_elems bs1 = blocks_elems bs @ [v]"
    by blast
  have "n + 1 + length vs < 2 ^ 61" using Cons.prems(2) by simp
  from Cons.IH [OF d1(2) this] obtain d' bs' where
    "push_all vs d1 = Inr d'" "deque_inv (n + 1 + length vs) d' bs'"
    "blocks_elems bs' = blocks_elems bs1 @ vs"
    by blast
  then show ?case using d1 by (auto simp: add.commute add.left_commute)
qed

lemma Deque_run_PushBack: "Deque_run (map PushBack vs) d = push_all vs d"
  by (induction vs arbitrary: d) (auto split: sum.splits)

lemma ref_run_PushBack: "ref_run (map PushBack vs) xs = Some (xs @ vs)"
  by (induction vs arbitrary: xs) simp_all

section \<open>Runs that complete\<close>

text \<open>
  Take any sequence of PushBack, PushFront, PopBack and PopFront calls on a
  default-constructed deque that never pops more than was pushed (the reference list
  has a value \<open>xs\<close>), that is shorter than \<open>2^61\<close> calls and that the code runs to the end,
  reaching the state \<open>d\<close>.  Then every ring block that is neither the head block nor the
  tail block holds exactly \<^verbatim>\<open>kBlockSize\<close> elements starting at offset 0, \<^verbatim>\<open>Size()\<close> is the
  length of \<open>xs\<close>, and the index translation of \<^verbatim>\<open>operator[]\<close> returns, for every index
  \<open>0 .. Size() - 1\<close>, the element the reference list has there.  The statement is about
  the runs that complete only: a run within the pop contract can leave a block's array
  on the way, and then there is no state \<open>d\<close>.
\<close>

lemma Deque_run_complete_correct:
  assumes "ref_run ops [] = Some xs" and "length ops < 2 ^ 61"
    and "Deque_run ops Deque_default = Inr d"
  shows "middle_blocks_full d \<and> unat (Deque_Size d) = length xs \<and> Deque_read_all d = map Inr xs"
proof -
  have "blocks_elems [Block_new kBlockSize] = []"
    by (simp add: blocks_elems_def blk_elems_def Block_new_def)
  with assms(1) have "ref_run ops (blocks_elems [Block_new kBlockSize]) = Some xs" by simp
  with deque_inv_default assms(2,3) obtain bs where
    bs: "deque_inv (0 + length ops) d bs" "blocks_elems bs = xs"
    using Deque_run_inv [of 0 Deque_default "[Block_new kBlockSize]" ops xs d] by auto
  then show ?thesis
    using deque_inv_middle [OF bs(1)] deque_inv_read_all [OF bs(1)] assms(2)
    by (simp add: deque_inv_def Deque_Size_def)
qed

text \<open>
  An instance: 300 calls of PushBack(7) run to the end, leave three blocks in
  the ring (so there is a block between the head block and the tail block), and the
  deque reads back the 300 elements.
\<close>

lemma Deque_run_300_PushBack:
  "\<exists>d. Deque_run (map PushBack (replicate 300 7)) Deque_default = Inr d \<and>
       middle_blocks_full d \<and> unat (Deque_Size d) = 300 \<and>
       Deque_read_all d = map Inr (replicate 300 7)"
proof -
  have len: "0 + length (replicate 300 (7 :: cint)) < 2 ^ 61" by simp
  from push_all_total [OF deque_inv_default len]
  have "\<exists>d. push_all (replicate 300 7) Deque_default = Inr d" by blast
  then obtain d where
    d: "Deque_run (map PushBack (replicate 300 7)) Deque_default = Inr d"
    unfolding Deque_run_PushBack by blast
  have ref: "ref_run (map PushBack (replicate 300 7)) [] = Some (replicate 300 7)"
    by (simp only: ref_run_PushBack append_Nil)
  have "length (map PushBack (replicate 300 (7 :: cint))) < 2 ^ 61" by simp
  from Deque_run_complete_correct [OF ref this d] show ?thesis using d by simp
qed

section \<open>The initializer-list constructor beyond its reserved slots\<close>

lemma reserved_push_in_block:
  assumes inv: "reserved_inv j s d" and s: "s < 128"
  shows "\<exists>d'. Deque_PushBack v d = Inr d' \<and> reserved_inv j (s + 1) d'"
proof -
  let ?r = "dq_data_proxy d"
  from inv obtain buf T where buf: "cb_buffer ?r = Some buf" "length buf = 16"
    and r: "cb_max_size ?r = 16" "cb_head ?r = 0" "unat (cb_tail ?r) = j"
      "unat (cb_size ?r) = 9 + j" "j \<le> 7"
    and T: "buf ! j = Some T" "blk_ok T" "blk_head T = 0" "unat (blk_size T) = s"
    and rest: "\<forall>i. j < i \<and> i < 16 \<longrightarrow> buf ! i = None"
    by (auto simp: reserved_inv_def)
  have deref: "slot_deref ?r (cb_tail ?r) = Inr T"
    using buf r T by (simp add: slot_deref_def slot_ptr_def arr_read_def)
  have nfull: "\<not> Block_IsFull kBlockSize T" using T s by (simp add: Block_IsFull_iff)
  have nrc: "\<not> Block_IsRightClose kBlockSize T"
    using T s by (simp add: Block_IsRightClose_iff)
  have room: "unat (blk_head T) + unat (blk_size T) < 128" using T s by simp
  from Block_PushBack_ok [OF T(2) room, of v] obtain T' where
    T': "Block_PushBack kBlockSize v T = Inr T'" "blk_ok T'"
      "blk_head T' = blk_head T" "unat (blk_size T') = unat (blk_size T) + 1"
    by blast
  define d' where "d' = \<lparr>dq_data_proxy = ?r\<lparr>cb_buffer := Some (buf[j := Some T'])\<rparr>,
                          dq_size = dq_size d + 1\<rparr>"
  have "Deque_PushBack v d = Inr d'"
    using buf r T nfull nrc deref T'(1)
    by (simp add: Deque_PushBack_def Let_def IsTailDataBlockFull_def TailIsUsedHead_def
        GetTailDataBlock_def slot_ptr_def slot_assign_def arr_read_def arr_write_def d'_def)
  moreover have "reserved_inv j (s + 1) d'"
    using buf r T T' rest by (auto simp: reserved_inv_def d'_def)
  ultimately show ?thesis by blast
qed

lemma reserved_push_new_block:
  assumes inv: "reserved_inv j 128 d" and j: "j < 7"
  shows "\<exists>d'. Deque_PushBack v d = Inr d' \<and> reserved_inv (j + 1) 1 d'"
proof -
  let ?r = "dq_data_proxy d"
  from inv obtain buf T where buf: "cb_buffer ?r = Some buf" "length buf = 16"
    and r: "cb_max_size ?r = 16" "cb_head ?r = 0" "unat (cb_tail ?r) = j"
      "unat (cb_size ?r) = 9 + j"
    and T: "buf ! j = Some T" "blk_ok T" "blk_head T = 0" "unat (blk_size T) = 128"
    and rest: "\<forall>i. j < i \<and> i < 16 \<longrightarrow> buf ! i = None"
    by (auto simp: reserved_inv_def)
  have deref: "slot_deref ?r (cb_tail ?r) = Inr T"
    using buf r T j by (simp add: slot_deref_def slot_ptr_def arr_read_def)
  have full: "Block_IsFull kBlockSize T" using T by (simp add: Block_IsFull_iff)
  have nring: "\<not> CircularBuffer_IsFull ?r"
    using r j by (simp add: CircularBuffer_IsFull_def word_unat_eq_iff)
  have tne: "cb_tail ?r \<noteq> 16 - 1" using r j by (auto simp: word_unat_eq_iff)
  have t1: "unat (cb_tail ?r + 1) = j + 1" using r j by (simp add: unat_add1_small)
  have s1: "unat (cb_size ?r + 1) = 9 + (j + 1)" using r j by (simp add: unat_add1_small)
  let ?fresh = "Block_new kBlockSize"
  have room: "unat (blk_head ?fresh) + unat (blk_size ?fresh) < 128"
    by (simp add: Block_new_def)
  from Block_PushBack_ok [OF Block_new_ok(1) room, of v] obtain T' where
    T': "Block_PushBack kBlockSize v ?fresh = Inr T'" "blk_ok T'"
      "blk_head T' = blk_head ?fresh" "unat (blk_size T') = unat (blk_size ?fresh) + 1"
    by blast
  define d' where "d' = \<lparr>dq_data_proxy =
      ?r\<lparr>cb_tail := cb_tail ?r + 1, cb_buffer := Some (buf[j + 1 := Some T']),
         cb_size := cb_size ?r + 1\<rparr>, dq_size = dq_size d + 1\<rparr>"
  have "Deque_PushBack v d = Inr d'"
    using buf r j nring full deref tne t1 T'(1)
    by (simp add: Deque_PushBack_def Let_def IsTailDataBlockFull_def AddTailDataBlock_def
        GetTailDataBlock_def slot_deref_def slot_ptr_def slot_assign_def arr_read_def arr_write_def
        d'_def)
  moreover have "reserved_inv (j + 1) 1 d'"
    using buf r j T' rest t1 s1 by (auto simp: reserved_inv_def d'_def Block_new_def)
  ultimately show ?thesis by blast
qed

lemma reserved_push_after_expand:
  assumes inv: "reserved_inv 7 128 d"
  shows "Deque_PushBack v d = Inl NullDeref"
proof -
  let ?r = "dq_data_proxy d"
  from inv obtain buf T where buf: "cb_buffer ?r = Some buf" "length buf = 16"
    and r: "cb_max_size ?r = 16" "cb_head ?r = 0" "unat (cb_tail ?r) = 7"
      "unat (cb_size ?r) = 16"
    and T: "buf ! 7 = Some T" "blk_ok T" "blk_head T = 0" "unat (blk_size T) = 128"
    by (auto simp: reserved_inv_def)
  have deref: "slot_deref ?r (cb_tail ?r) = Inr T"
    using buf r T by (simp add: slot_deref_def slot_ptr_def arr_read_def)
  have full: "Block_IsFull kBlockSize T" using T by (simp add: Block_IsFull_iff)
  have sz: "cb_size ?r = 16" using r by (simp add: word_unat_eq_iff)
  have ring: "CircularBuffer_IsFull ?r" using r sz by (simp add: CircularBuffer_IsFull_def)
  have "\<exists>nb'. Expand_loop buf (cb_max_size ?r) 32 (cb_tail ?r) (cb_head ?r) 0 (replicate 32 None)
            = Inr (0 + word_of_nat 7, nb') \<and>
           length nb' = length (replicate 32 (None :: Block option)) \<and>
           (\<forall>j<7. nb' ! (unat (0 :: size_t) + j) = buf ! ((unat (cb_head ?r) + j) mod unat (cb_max_size ?r))) \<and>
           (\<forall>p. p < unat (0 :: size_t) \<or> unat (0 :: size_t) + 7 \<le> p \<longrightarrow>
                nb' ! p = replicate 32 (None :: Block option) ! p)"
    by (rule Expand_loop_ring) (use buf r in simp_all)
  then obtain nb' where loop: "Expand_loop buf 16 32 (cb_tail ?r) 0 0 (replicate 32 None) = Inr (7, nb')"
    and len: "length nb' = 32"
    and kept: "\<forall>p. 7 \<le> p \<longrightarrow> nb' ! p = replicate 32 (None :: Block option) ! p"
    using r by auto
  have n15: "nb'[7 := buf ! 7] ! 15 = None" using kept len by simp
  let ?r1 = "?r\<lparr>cb_head := 0, cb_tail := cb_size ?r - 1, cb_buffer := Some (nb'[7 := buf ! 7]),
               cb_max_size := 32\<rparr>"
  have ex: "ExpandBuffer ?r = Inr ?r1"
    using buf r loop len by (simp add: ExpandBuffer_def Let_def arr_read_def arr_write_def)
  have "IsTailDataBlockFull kBlockSize ?r1 = Inl NullDeref"
    using n15 len sz by (simp add: IsTailDataBlockFull_def slot_deref_def slot_ptr_def arr_read_def)
  then show ?thesis
    using ring full deref ex
    by (simp add: Deque_PushBack_def Let_def IsTailDataBlockFull_def)
qed

lemma reserved_push_all:
  assumes "reserved_inv j s d" "s \<le> 128" "128 * j + s + length vs \<le> 1024"
  shows "\<exists>d' j' s'. push_all vs d = Inr d' \<and> reserved_inv j' s' d' \<and> s' \<le> 128 \<and>
           128 * j' + s' = 128 * j + s + length vs"
  using assms
proof (induction vs arbitrary: j s d)
  case Nil
  then show ?case by auto
next
  case (Cons v vs)
  have "\<exists>d1 j1 s1. Deque_PushBack v d = Inr d1 \<and> reserved_inv j1 s1 d1 \<and> s1 \<le> 128 \<and>
          128 * j1 + s1 = 128 * j + s + 1"
  proof (cases "s < 128")
    case True
    from reserved_push_in_block [OF Cons.prems(1) True, of v] show ?thesis
      using True by force
  next
    case False
    then have s: "s = 128" using Cons.prems(2) by simp
    then have j: "j < 7" using Cons.prems(3) by simp
    from reserved_push_new_block [OF Cons.prems(1) [unfolded s] j, of v] show ?thesis
      using s by force
  qed
  then obtain d1 j1 s1 where d1: "Deque_PushBack v d = Inr d1" "reserved_inv j1 s1 d1" "s1 \<le> 128"
    "128 * j1 + s1 = 128 * j + s + 1"
    by blast
  have "128 * j1 + s1 + length vs \<le> 1024" using d1(4) Cons.prems(3) by simp
  from Cons.IH [OF d1(2,3) this] obtain d' j' s' where
    "push_all vs d1 = Inr d'" "reserved_inv j' s' d'" "s' \<le> 128"
    "128 * j' + s' = 128 * j1 + s1 + length vs"
    by blast
  then show ?case using d1 by force
qed

lemma push_all_append:
  "push_all (as @ bs) d = (case push_all as d of Inl e \<Rightarrow> Inl e | Inr d' \<Rightarrow> push_all bs d')"
  by (induction as arbitrary: d) (auto split: sum.splits)

lemma reserved_inv_initial:
  "reserved_inv 0 0
     \<lparr>dq_data_proxy = CircularBuffer_reserved kBlockSize 1025, dq_size = 0\<rparr>"
proof -
  have "GetBlocksCount 1025 = 9" by (simp add: GetBlocksCount_def kBlockSize_def)
  then have ring: "CircularBuffer_reserved kBlockSize 1025 =
      \<lparr>cb_size = 9, cb_max_size = 16, cb_head = 0, cb_tail = 0,
       cb_buffer = Some ((replicate 16 None)[0 := Some (Block_new kBlockSize)])\<rparr>"
    by (simp add: CircularBuffer_reserved_def kBufferInitMaxSize_def Let_def)
  have "blk_head (Block_new kBlockSize) = 0" "unat (blk_size (Block_new kBlockSize)) = 0"
    by (simp_all add: Block_new_def)
  then show ?thesis
    unfolding reserved_inv_def ring using Block_new_ok(1) by simp
qed

lemma Deque_from_list_1025:
  assumes "length xs = 1025"
  shows "Deque_from_list xs = Inl NullDeref"
proof -
  let ?d0 = "\<lparr>dq_data_proxy = CircularBuffer_reserved kBlockSize 1025, dq_size = 0\<rparr>"
  have "take (Suc 1024) xs = take 1024 xs @ [xs ! 1024]"
    using assms by (intro take_Suc_conv_app_nth) simp
  moreover have "take (Suc 1024) xs = xs" using assms by simp
  ultimately have xs: "xs = take 1024 xs @ [xs ! 1024]" by simp
  have "128 * 0 + 0 + length (take 1024 xs) \<le> 1024" by simp
  from reserved_push_all [OF reserved_inv_initial _ this] obtain d' j' s' where
    d': "push_all (take 1024 xs) ?d0 = Inr d'" "reserved_inv j' s' d'" "s' \<le> 128"
      "128 * j' + s' = 128 * 0 + 0 + length (take 1024 xs)"
    by auto
  have "j' \<le> 7" using d'(2) by (auto simp: reserved_inv_def)
  with d'(3,4) assms have "j' = 7" "s' = 128" by simp_all
  with d'(2) have "Deque_PushBack (xs ! 1024) d' = Inl NullDeref"
    by (intro reserved_push_after_expand) simp
  then have "push_all (take 1024 xs @ [xs ! 1024]) ?d0 = Inl NullDeref"
    using d'(1) by (simp add: push_all_append)
  then have "push_all xs ?d0 = Inl NullDeref" using xs by simp
  then show ?thesis using assms by (simp add: Deque_from_list_def)
qed

section \<open>The claims\<close>

text \<open>
  C1.  Claim: every sequence of PushBack, PushFront, PopBack and PopFront from an empty
  deque that never pops more than was pushed leaves the indexed contents of the
  reference two-ended list.  The code fails it: PushBack(1), PopBack(), PushFront(2) is
  such a sequence, the reference list then holds the single element 2, and the deque's
  PushFront writes outside the block's array (the emptied block keeps head 0 and a
  wrapped tail, so \<^verbatim>\<open>Block::PushFront\<close> takes its non-empty branch and decrements
  head 0).
\<close>

theorem C1_push_pop_push_front_leaves_array:
  "ref_run [PushBack 1, PopBack, PushFront 2] [] = Some [2] \<and>
   Deque_run [PushBack 1, PopBack, PushFront 2] Deque_default = Inl OutOfBounds"
  by (simp add: eval_defs)

text \<open>
  C2.  Claim: a Block whose size reaches 0 through PopBack or PopFront has head and
  tail reset to 0, so that the next PushFront writes at index C-1 and the next PushBack
  at index 0.  The code has no such reset.  After PushBack(1), PopBack() the block has
  head 0 and tail \<open>2^64 - 1\<close>, and PushFront then writes outside the array; after
  PushBack(1), PopFront() it has head 1 and tail 0, and PushBack then makes the window
  [1, 1] and PushFront the window [0, 0].
\<close>

theorem C2_pop_does_not_reset_window:
  "(case bindE (Block_PushBack kBlockSize 1 (Block_new kBlockSize)) Block_PopBack of
      Inl e \<Rightarrow> False
    | Inr b \<Rightarrow> blk_size b = 0 \<and> blk_head b = 0 \<and> blk_tail b = - 1 \<and>
               Block_PushFront kBlockSize 2 b = Inl OutOfBounds) \<and>
   (case bindE (Block_PushBack kBlockSize 1 (Block_new kBlockSize)) Block_PopFront of
      Inl e \<Rightarrow> False
    | Inr b \<Rightarrow> blk_size b = 0 \<and> blk_head b = 1 \<and> blk_tail b = 0 \<and>
               (case Block_PushBack kBlockSize 2 b of
                  Inl e \<Rightarrow> False | Inr b' \<Rightarrow> blk_head b' = 1 \<and> blk_tail b' = 1) \<and>
               (case Block_PushFront kBlockSize 2 b of
                  Inl e \<Rightarrow> False | Inr b' \<Rightarrow> blk_head b' = 0 \<and> blk_tail b' = 0))"
  by (simp add: eval_defs)

text \<open>
  C3.  Claim: for every literal sequence, the deque built from the initializer list
  reads back the sequence and has its length as size.  The code fails it for a list of
  1025 elements.  \<^verbatim>\<open>CircularBuffer(size_t elem_count)\<close> sets the ring's size field to the
  block count 9 but creates one block only; the eighth block is full after 1024 pushes
  with the size field at 16, the capacity, so the next PushBack calls \<^verbatim>\<open>ExpandBuffer\<close>,
  which sets \<^verbatim>\<open>tail_ = size_ - 1 = 15\<close>, a null slot that \<^verbatim>\<open>IsTailDataBlockFull\<close> then
  dereferences.
\<close>

theorem C3_initializer_list_1025_null_deref:
  "Deque_from_list (replicate 1025 0) = Inl NullDeref"
  by (rule Deque_from_list_1025) simp

text \<open>
  C4.  Claim: for every length n, including 0 and the exact multiples of the block
  capacity, \<^verbatim>\<open>Deque(n)\<close> has size n, reads the default value everywhere and accepts a
  following PushBack at index n.  The code fails it at n = 0 (and at every multiple of
  128): the last block is built as \<^verbatim>\<open>Block(n % 128, filler)\<close> with size 0, whose fill loop
  runs to the wrapped bound \<open>2^64 - 1\<close> and leaves the array.  Beyond one block the ring's
  tail index stays 0: after \<^verbatim>\<open>Deque(129)\<close> a PushBack(5) replaces the second block, so that
  index 128 reads 5 and index 129 reads 0.
\<close>

theorem C4_sized_constructor_zero_leaves_array:
  "Deque_sized 0 = Inl OutOfBounds \<and> Deque_sized 128 = Inl OutOfBounds \<and>
   (case bindE (Deque_sized 129) (Deque_PushBack 5) of
      Inl e \<Rightarrow> False
    | Inr d \<Rightarrow> Deque_Size d = 130 \<and> Deque_index d 128 = Inr 5 \<and> Deque_index d 129 = Inr 0)"
  by (simp add: eval_defs Deque_sized_def CircularBuffer_filled_def GetBlocksCount_def
      Block_sized_def)

text \<open>
  C5.  Claim: copy construction works in every reachable state, including those whose
  ring head is not slot 0.  The code fails it: after PushBack(1), PushFront(0) the ring
  has its head in slot 15 and its tail in slot 0, and the copy constructor, which walks
  the slots \<open>0 .. size - 1\<close>, dereferences the null slot 1.
\<close>

theorem C5_copy_with_wrapped_head_null_deref:
  "bindE (Deque_run [PushBack 1, PushFront 0] Deque_default) Deque_copy = Inl NullDeref"
  by (simp add: eval_defs Deque_copy_def CircularBuffer_copy_def Block_copy_assign_def)

text \<open>
  C6.  Claim: after move construction or move assignment the moved-from deque is in the
  initial empty-ring state (one empty block, count 0, default ring capacity).  It is
  not: moving from a freshly constructed deque leaves a source without any slot array
  and with ring capacity 0, which is not the freshly constructed state.
\<close>

theorem C6_moved_from_is_not_initial_state:
  "cb_buffer (dq_data_proxy (snd (Deque_move Deque_default))) = None \<and>
   cb_max_size (dq_data_proxy (snd (Deque_move Deque_default))) = 0 \<and>
   cb_max_size (dq_data_proxy Deque_default) = 16 \<and>
   snd (Deque_move Deque_default) \<noteq> Deque_default \<and>
   snd (Deque_move_assign Deque_default Deque_default) \<noteq> Deque_default"
  by (simp add: Deque_move_def Deque_move_assign_def Deque_assign_body_def CircularBuffer_move_def
      CircularBuffer_moved_from_def Deque_default_def CircularBuffer_default_def
      kBufferInitMaxSize_def)

text \<open>
  C6, amended.  Move construction and move assignment hand the source's ring and count
  to the new (or assigned-to) deque and leave the source hollow: a null slot array, ring
  size field 1, ring capacity 0, head 0 and tail 0, the element count unchanged.  The
  hollow source is not usable: every push, pop, indexed read and \<^verbatim>\<open>Clear\<close> on it
  dereferences the null array.
\<close>

theorem C6_move_leaves_hollow_source:
  "fst (Deque_move d) = d \<and>
   snd (Deque_move d) = \<lparr>dq_data_proxy = CircularBuffer_moved_from, dq_size = dq_size d\<rparr> \<and>
   fst (Deque_move_assign a d) = d \<and>
   snd (Deque_move_assign a d) = \<lparr>dq_data_proxy = CircularBuffer_moved_from, dq_size = dq_size d\<rparr> \<and>
   CircularBuffer_moved_from =
     \<lparr>cb_size = 1, cb_max_size = 0, cb_head = 0, cb_tail = 0, cb_buffer = None\<rparr> \<and>
   Deque_PushBack v (snd (Deque_move d)) = Inl NullDeref \<and>
   Deque_PushFront v (snd (Deque_move d)) = Inl NullDeref \<and>
   Deque_PopBack (snd (Deque_move d)) = Inl NullDeref \<and>
   Deque_PopFront (snd (Deque_move d)) = Inl NullDeref \<and>
   Deque_index (snd (Deque_move d)) i = Inl NullDeref \<and>
   Deque_Clear (snd (Deque_move d)) = Inl NullDeref"
  by (simp add: Deque_move_def Deque_move_assign_def Deque_assign_body_def CircularBuffer_move_def
      CircularBuffer_moved_from_def eval_defs Deque_Clear_def CircularBuffer_Clear_def)

text \<open>
  C7.  Claim: \<^verbatim>\<open>Clear()\<close> puts the ring in the state of a freshly default-constructed
  deque, so clearing an empty deque cannot be observed.  The code fails it: \<^verbatim>\<open>Clear\<close>
  sets the ring's size field to 0 where the constructor sets 1.  After that PushFront(1),
  PopBack(), PushBack(5) leaves a deque of size 1 whose index 0 reads 1, while the same
  three calls on a fresh deque read 5.
\<close>

theorem C7_clear_differs_from_fresh:
  "(case Deque_Clear Deque_default of
      Inl e \<Rightarrow> False
    | Inr d \<Rightarrow> cb_size (dq_data_proxy d) = 0 \<and> cb_size (dq_data_proxy Deque_default) = 1) \<and>
   (case bindE (Deque_Clear Deque_default) (Deque_run [PushFront 1, PopBack, PushBack 5]) of
      Inl e \<Rightarrow> False
    | Inr d \<Rightarrow> Deque_read_all d = [Inr 1]) \<and>
   (case Deque_run [PushFront 1, PopBack, PushBack 5] Deque_default of
      Inl e \<Rightarrow> False
    | Inr d \<Rightarrow> Deque_read_all d = [Inr 5])"
  by (simp add: eval_defs Deque_Clear_def CircularBuffer_Clear_def)

text \<open>
  C8.  Claim: in every state reachable from the empty deque by pushes and pops alone,
  the blocks between the head block and the tail block are full, so that the index
  translation of \<^verbatim>\<open>operator[]\<close> returns the right element at every valid index.  The code
  fails it: PushFront(1), PopFront(), PushBack(2), PopFront() never pops more than was
  pushed, and its last call leaves the block's array.  PopFront() of the only element
  keeps the emptied block, with head 128 and tail 127; PushBack(2) finds that block
  closed on the right and puts the element in a new tail block, so the ring holds an
  empty head block before the block of the element 2; the last PopFront() pops from the
  head block and writes \<^verbatim>\<open>data_[128]\<close>, where the reference list pops the 2.  (The runs
  that complete do reach the claimed states: \<open>Deque_run_complete_correct\<close>.)
\<close>

theorem C8_pop_front_on_empty_head_block_leaves_array:
  "ref_run [PushFront 1, PopFront, PushBack 2] [] = Some [2] \<and>
   ref_run [PushFront 1, PopFront, PushBack 2, PopFront] [] = Some [] \<and>
   (case Deque_run [PushFront 1, PopFront, PushBack 2] Deque_default of
      Inl e \<Rightarrow> False
    | Inr d \<Rightarrow> Deque_Size d = 1 \<and> cb_size (dq_data_proxy d) = 2 \<and>
               cb_head (dq_data_proxy d) = 0 \<and> cb_tail (dq_data_proxy d) = 1 \<and>
               (case slot_deref (dq_data_proxy d) (cb_head (dq_data_proxy d)) of
                  Inl e \<Rightarrow> False
                | Inr b \<Rightarrow> blk_size b = 0 \<and> blk_head b = 128 \<and> blk_tail b = 127) \<and>
               Deque_index d 0 = Inr 2 \<and>
               Deque_PopFront d = Inl OutOfBounds) \<and>
   Deque_run [PushFront 1, PopFront, PushBack 2, PopFront] Deque_default = Inl OutOfBounds"
  by (simp add: eval_defs)

text \<open>
  C9.  Claim: after every public operation, moves included, the ring's size field is
  the number of slots that own a Block, and these are the wrapping range from head to
  tail.  It fails for the source of a move: the size field is set to 1 while the slot
  array is gone, so no slot owns a block.
\<close>

theorem C9_moved_from_ring_size_mismatch:
  "length (populated_slots (dq_data_proxy (snd (Deque_move Deque_default)))) = 0 \<and>
   unat (cb_size (dq_data_proxy (snd (Deque_move Deque_default)))) = 1 \<and>
   \<not> ring_consistent (dq_data_proxy (snd (Deque_move Deque_default)))"
  by (simp add: Deque_move_def CircularBuffer_move_def CircularBuffer_moved_from_def
      populated_slots_def ring_consistent_def)

text \<open>
  C9, amended.  After default construction and after every PushBack, PushFront, PopBack
  and PopFront of a sequence that never pops more than was pushed, that is shorter than
  \<open>2^61\<close> calls and that the code runs to the end, the ring's size field is the number of
  slots that own a Block, and these slots are exactly the wrapping range that starts at
  the head index and ends at the tail index.  The deque built or assigned by a move from
  such a deque is in the same state, and \<^verbatim>\<open>Swap\<close> exchanges the two states, so both keep
  the property.
\<close>

theorem C9_ring_size_matches_populated_range:
  assumes "ref_run ops [] = Some xs" and "length ops < 2 ^ 61"
    and "Deque_run ops Deque_default = Inr d"
  shows "ring_consistent (dq_data_proxy d) \<and>
         fst (Deque_move d) = d \<and> fst (Deque_move_assign a d) = d \<and>
         Deque_Swap d e = (e, d)"
proof -
  have "blocks_elems [Block_new kBlockSize] = []"
    by (simp add: blocks_elems_def blk_elems_def Block_new_def)
  with assms(1) have "ref_run ops (blocks_elems [Block_new kBlockSize]) = Some xs" by simp
  with deque_inv_default assms(2,3) obtain bs where
    bs: "deque_inv (0 + length ops) d bs" "blocks_elems bs = xs"
    using Deque_run_inv [of 0 Deque_default "[Block_new kBlockSize]" ops xs d] by auto
  then have "ring_rel (dq_data_proxy d) bs" by (simp add: deque_inv_def)
  then have "ring_consistent (dq_data_proxy d)" by (rule ring_rel_consistent)
  then show ?thesis
    by (simp add: Deque_move_def Deque_move_assign_def Deque_assign_body_def CircularBuffer_move_def
        Deque_Swap_def CircularBuffer_Swap_def)
qed

text \<open>
  C9, witness: the example of the specification, PushBack(1), PushBack(2),
  PushFront(0), PopFront().
\<close>

theorem C9_witness_spec_example:
  "\<exists>d. Deque_run [PushBack 1, PushBack 2, PushFront 0, PopFront] Deque_default = Inr d \<and>
       ring_consistent (dq_data_proxy d) \<and>
       fst (Deque_move d) = d \<and> fst (Deque_move_assign Deque_default d) = d \<and>
       Deque_Swap d Deque_default = (Deque_default, d)"
proof -
  have "\<exists>d. Deque_run [PushBack 1, PushBack 2, PushFront 0, PopFront] Deque_default = Inr d"
    by (simp add: eval_defs)
  then obtain d where d: "Deque_run [PushBack 1, PushBack 2, PushFront 0, PopFront] Deque_default = Inr d"
    by blast
  have ref: "ref_run [PushBack 1, PushBack 2, PushFront 0, PopFront] [] = Some [1, 2]"
    by simp
  have "length [PushBack 1, PushBack 2, PushFront 0, PopFront] < 2 ^ 61" by simp
  from C9_ring_size_matches_populated_range [OF ref this d, of Deque_default Deque_default]
  show ?thesis using d by simp
qed

text \<open>
  C10.  Claim: the \<^verbatim>\<open>IsEmpty\<close> check of \<^verbatim>\<open>Deque::PushFront\<close> only reads a populated slot,
  slot 0 staying populated after front pops.  The code fails it: after PushFront(1),
  PushBack(2), PopFront() the ring holds one block, in slot 1, slot 0 is null, and the
  check \<^verbatim>\<open>size_ == 1 and buffer_[0]->IsEmpty()\<close> of the next PushFront dereferences it.
\<close>

theorem C10_is_empty_reads_null_slot:
  "(case Deque_run [PushFront 1, PushBack 2, PopFront] Deque_default of
      Inl e \<Rightarrow> False
    | Inr d \<Rightarrow> Deque_Size d = 1 \<and> cb_size (dq_data_proxy d) = 1 \<and>
               cb_head (dq_data_proxy d) = 1 \<and>
               slot_ptr (dq_data_proxy d) 0 = Inr None \<and>
               CircularBuffer_IsEmpty (dq_data_proxy d) = Inl NullDeref \<and>
               Deque_PushFront 3 d = Inl NullDeref)"
  by (simp add: eval_defs)

end
